theory Spec2Isabelle
  imports Complex_Main "HOL-Library.Multiset"
begin

section \<open>The Bi-RRT* planner of hpp-core: parent maps\<close>

text \<open>
  The planner (\<^verbatim>\<open>BiRrtStar\<close>, namespace \<^verbatim>\<open>hpp::core::pathPlanner\<close>) keeps, for each of its
  two roots, a parent map \<^verbatim>\<open>std::map<NodePtr_t, EdgePtr_t>\<close>. Nodes are pointers compared
  by identity and are modelled by natural numbers; an edge is modelled by the values the
  planner reads from it (\<^verbatim>\<open>from()\<close>, \<^verbatim>\<open>to()\<close>, \<^verbatim>\<open>path()\<close>); a null \<^verbatim>\<open>EdgePtr_t\<close> is \<open>None\<close>.
  Paths are objects of the abstract class \<^verbatim>\<open>Path\<close>, kept as a type variable \<open>'p\<close>; their
  member functions are parameters. \<^verbatim>\<open>value_type\<close> is \<^verbatim>\<open>double\<close>, modelled by \<open>real\<close>:
  rounding is not modelled.
\<close>

type_synonym node = nat

record 'p edge =
  efrom :: node
  eto :: node
  epath :: 'p

type_synonym 'p ParentMap_t = "node \<rightharpoonup> 'p edge option"

text \<open>
  The ways a call can end other than by returning: the two exceptions thrown in the file,
  a failed \<^verbatim>\<open>assert\<close>, and the dereference of a past-the-end iterator, whose behaviour the
  language leaves undefined.
\<close>

datatype error =
  logic_error string
  | invalid_argument string
  | assertion_failure
  | end_iterator_dereference

definition OrphanNode :: error where
  "OrphanNode = logic_error ''this node has no parent.''"

definition ParentMapInconsistent :: error where
  "ParentMapInconsistent = logic_error ''could not find node from of edge in parent map.''"

subsection \<open>\<^verbatim>\<open>computeCost\<close>\<close>

text \<open>
  \<^verbatim>\<open>for (It_t current = map.find(n); current->second;
        current = map.find(current->second->from())) {
      if (current == map.end()) throw std::logic_error("this node has no parent.");
      c += current->second->path()->length();
  }
  return c;\<close>

  The loop condition \<^verbatim>\<open>current->second\<close> is evaluated before the body, hence before the
  test \<^verbatim>\<open>current == map.end()\<close>. The loop does not end on a cyclic map, so the result is
  an option: \<open>None\<close> is a run that never returns.
\<close>

partial_function (option) computeCost_loop ::
  "('p \<Rightarrow> real) \<Rightarrow> 'p ParentMap_t \<Rightarrow> node \<Rightarrow> real \<Rightarrow> (error + real) option"
where
  "computeCost_loop len m current c =
     (case m current of
        None \<Rightarrow> Some (Inl end_iterator_dereference)
      | Some None \<Rightarrow> Some (Inr c)
      | Some (Some e) \<Rightarrow>
          (if m current = None then Some (Inl (logic_error ''this node has no parent.''))
           else computeCost_loop len m (efrom e) (c + len (epath e))))"

definition computeCost ::
  "('p \<Rightarrow> real) \<Rightarrow> 'p ParentMap_t \<Rightarrow> node \<Rightarrow> (error + real) option"
where
  "computeCost len m n = computeCost_loop len m n 0"

subsection \<open>\<^verbatim>\<open>setParent\<close>\<close>

text \<open>
  \<^verbatim>\<open>if (e) {
      assert(e->to() == n);
      if (map.find(e->from()) == map.end()) {
        ...
        throw std::logic_error("could not find node from of edge in parent map.");
      }
  }
  map[n] = e;\<close>

  The map is passed by reference; the model returns the map as the call leaves it together
  with the error, if any. \<open>ndbg\<close> tells whether the file is compiled with \<^verbatim>\<open>NDEBUG\<close>,
  which removes the \<^verbatim>\<open>assert\<close>.
\<close>

definition setParent ::
  "bool \<Rightarrow> 'p ParentMap_t \<Rightarrow> node \<Rightarrow> 'p edge option \<Rightarrow> error option \<times> 'p ParentMap_t"
where
  "setParent ndbg m n e =
     (case e of
        None \<Rightarrow> (None, m(n \<mapsto> e))
      | Some ed \<Rightarrow>
          if \<not> ndbg \<and> eto ed \<noteq> n then (Some assertion_failure, m)
          else if m (efrom ed) = None then (Some (logic_error ''could not find node from of edge in parent map.''), m)
          else (None, m(n \<mapsto> e)))"

section \<open>The tree builder\<close>

subsection \<open>\<^verbatim>\<open>WeighedNode_t\<close> and the priority queue\<close>

record 'p WeighedNode_t =
  node :: node
  parent :: "'p edge option"
  cost :: real

text \<open>
  \<^verbatim>\<open>bool operator<( const WeighedNode_t& other ) const { return cost < other.cost; }\<close>
\<close>

definition less_WeighedNode :: "'p WeighedNode_t \<Rightarrow> 'p WeighedNode_t \<Rightarrow> bool" where
  "less_WeighedNode a other = (cost a < cost other)"

text \<open>
  \<^verbatim>\<open>typedef std::priority_queue<WeighedNode_t> Queue_t;\<close>

  With the default comparison \<^verbatim>\<open>std::less\<close>, \<^verbatim>\<open>top()\<close> returns an element that is not less
  than any other under \<^verbatim>\<open>operator<\<close>. The queue is modelled by the list of its elements in
  the order they were pushed; among the elements that qualify, \<open>queue_top\<close> returns the
  oldest (the standard leaves this choice to the heap).
\<close>

type_synonym 'p Queue_t = "'p WeighedNode_t list"

fun queue_top_from :: "'p WeighedNode_t \<Rightarrow> 'p Queue_t \<Rightarrow> 'p WeighedNode_t" where
  "queue_top_from best [] = best"
| "queue_top_from best (x # xs) =
     (if less_WeighedNode best x then queue_top_from x xs else queue_top_from best xs)"

definition queue_top :: "'p Queue_t \<Rightarrow> 'p WeighedNode_t" where
  "queue_top queue = queue_top_from (hd queue) (tl queue)"

definition queue_pop :: "'p Queue_t \<Rightarrow> 'p Queue_t" where
  "queue_pop queue = remove1 (queue_top queue) queue"

definition queue_push :: "'p Queue_t \<Rightarrow> 'p WeighedNode_t \<Rightarrow> 'p Queue_t" where
  "queue_push queue w = queue @ [w]"

subsection \<open>\<^verbatim>\<open>computeParentMap\<close>\<close>

text \<open>
  One turn of \<^verbatim>\<open>while (!queue.empty()) { ... }\<close>, on the pair of \<^verbatim>\<open>visited\<close> and
  \<^verbatim>\<open>queue\<close>. \<open>len\<close> is \<^verbatim>\<open>Path::length\<close> and \<open>outEdges n\<close> is \<^verbatim>\<open>n->outEdges()\<close>.

  \<^verbatim>\<open>WeighedNode_t current (queue.top());
  queue.pop();
  std::pair<ItV_t, bool> res (visited.insert(std::make_pair(current.node, current)));
  bool addChildren (res.second);
  if (!addChildren) {
    if (res.first->second.cost > current.cost) {
      res.first->second.cost = current.cost;
      res.first->second.parent = current.parent;
      addChildren = true;
    }
  }
  if (addChildren) {
    const Edges_t& edges = current.node->outEdges();
    for (...) {
      EdgePtr_t edge (*_edge);
      queue.push(WeighedNode_t(edge->to(), edge, current.cost + edge->path()->length()));
    }
  }\<close>
\<close>

type_synonym 'p Visited_t = "node \<rightharpoonup> 'p WeighedNode_t"

definition computeParentMap_step ::
  "('p \<Rightarrow> real) \<Rightarrow> (node \<Rightarrow> 'p edge list) \<Rightarrow> 'p Visited_t \<times> 'p Queue_t \<Rightarrow>
     'p Visited_t \<times> 'p Queue_t"
where
  "computeParentMap_step len outEdges s =
     (let visited = fst s; queue = snd s;
          current = queue_top queue;
          queue1 = queue_pop queue;
          res = (case visited (node current) of
                   None \<Rightarrow> (visited(node current \<mapsto> current), True)
                 | Some w \<Rightarrow>
                     if cost w > cost current
                     then (visited(node current \<mapsto> w\<lparr>cost := cost current, parent := parent current\<rparr>), True)
                     else (visited, False));
          visited1 = fst res; addChildren = snd res
      in if addChildren
         then (visited1,
               foldl (\<lambda>qu edge. queue_push qu
                        \<lparr>node = eto edge, parent = Some edge,
                         cost = cost current + len (epath edge)\<rparr>)
                 queue1 (outEdges (node current)))
         else (visited1, queue1))"

text \<open>The loop may run for ever (a cycle of negative length): \<open>None\<close> is no result.\<close>

partial_function (option) computeParentMap_loop ::
  "('p \<Rightarrow> real) \<Rightarrow> (node \<Rightarrow> 'p edge list) \<Rightarrow> 'p Visited_t \<times> 'p Queue_t \<Rightarrow>
     'p Visited_t option"
where
  "computeParentMap_loop len outEdges s =
     (if snd s = [] then Some (fst s)
      else computeParentMap_loop len outEdges (computeParentMap_step len outEdges s))"

text \<open>
  \<^verbatim>\<open>queue.push(WeighedNode_t(root, EdgePtr_t(), 0));
  while ...
  for (ItV_t _v = visited.begin(); _v != visited.end(); ++_v)
    result[_v->first] = _v->second.parent;\<close>
\<close>

definition computeParentMap_init :: "node \<Rightarrow> 'p Visited_t \<times> 'p Queue_t" where
  "computeParentMap_init rootn = (Map.empty, queue_push [] \<lparr>node = rootn, parent = None, cost = 0\<rparr>)"

definition computeParentMap ::
  "('p \<Rightarrow> real) \<Rightarrow> (node \<Rightarrow> 'p edge list) \<Rightarrow> node \<Rightarrow> 'p ParentMap_t option"
where
  "computeParentMap len outEdges rootn =
     (case computeParentMap_loop len outEdges (computeParentMap_init rootn) of
        None \<Rightarrow> None
      | Some visited \<Rightarrow> Some (map_option parent \<circ> visited))"

section \<open>The planner\<close>

subsection \<open>What the planner calls\<close>

text \<open>
  The classes \<^verbatim>\<open>Path\<close>, \<^verbatim>\<open>Problem\<close>, \<^verbatim>\<open>Roadmap\<close>, \<^verbatim>\<open>Node\<close> and \<^verbatim>\<open>Edge\<close> are used by
  \<^verbatim>\<open>bi-rrt-star.cc\<close> through their member functions only. The member functions are the
  fields of one record; \<open>'q\<close> is \<^verbatim>\<open>Configuration_t\<close>, \<open>'p\<close> is \<^verbatim>\<open>Path\<close>, \<open>'rm\<close> is the
  state of the roadmap (its nodes, edges and connected components), which every function
  that reads the roadmap takes and every function that changes it returns.
  A \<^verbatim>\<open>ConnectedComponentPtr_t\<close> is modelled by a natural number.

  \<^item> \<open>path_length\<close>, \<open>path_end\<close>, \<open>path_reverse\<close>, \<open>path_timeRange\<close>, \<open>path_extract\<close>:
    \<^verbatim>\<open>Path::length\<close>, \<^verbatim>\<open>end\<close>, \<^verbatim>\<open>reverse\<close>, \<^verbatim>\<open>timeRange\<close>, \<^verbatim>\<open>extract\<close>;
  \<^item> \<open>steer\<close>: \<^verbatim>\<open>problem().steeringMethod()->steer(q0, q1)\<close>, \<open>None\<close> for a null path;
  \<^item> \<open>pathProjector\<close>: \<open>None\<close> when \<^verbatim>\<open>problem().pathProjector()\<close> is null, otherwise the
    path that \<^verbatim>\<open>apply\<close> stores in its second argument;
  \<^item> \<open>pathValidation\<close>: the value returned by \<^verbatim>\<open>validate (path, false, validPart, report)\<close>
    and the \<^verbatim>\<open>validPart\<close> it stores;
  \<^item> \<open>numberDof\<close>: \<^verbatim>\<open>problem().robot()->numberDof()\<close>;
  \<^item> \<open>nodes\<close>: \<^verbatim>\<open>roadmap()->nodes()\<close>, the list of the nodes;
  \<^item> \<open>nearestNode_in\<close>: \<^verbatim>\<open>roadmap()->nearestNode(q, cc, dist)\<close>, the node and \<^verbatim>\<open>dist\<close>;
    \<open>nearestNode\<close>: \<^verbatim>\<open>roadmap()->nearestNode(q, dist)\<close>;
  \<^item> \<open>nodesWithinBall\<close>: \<^verbatim>\<open>roadmap()->nodesWithinBall(q, cc, radius)\<close>;
  \<^item> \<open>addNode\<close>: \<^verbatim>\<open>roadmap()->addNode(config)\<close>, the node returned and the new roadmap;
  \<^item> \<open>addEdge\<close>: the roadmap after \<^verbatim>\<open>roadmap()->addEdge(from, to, path)\<close>; the edge returned
    is the one with these three values;
  \<^item> \<open>connectedComponents_size\<close>: \<^verbatim>\<open>roadmap()->connectedComponents().size()\<close>;
  \<^item> \<open>connectedComponent\<close>, \<open>configuration\<close>, \<open>outEdges\<close>: the member functions of \<^verbatim>\<open>Node\<close>;
  \<^item> \<open>initNode\<close>, \<open>goalNodes\<close>: \<^verbatim>\<open>roadmap()->initNode()\<close>, \<^verbatim>\<open>roadmap()->goalNodes()\<close>;
  \<^item> \<open>ndebug\<close>: whether \<^verbatim>\<open>NDEBUG\<close> is defined, which removes every \<^verbatim>\<open>assert\<close>.
\<close>

type_synonym cc = nat

record ('q, 'p, 'rm) collaborators =
  path_length :: "'p \<Rightarrow> real"
  path_end :: "'p \<Rightarrow> 'q"
  path_reverse :: "'p \<Rightarrow> 'p"
  path_timeRange :: "'p \<Rightarrow> real \<times> real"
  path_extract :: "'p \<Rightarrow> real \<Rightarrow> real \<Rightarrow> 'p"
  steer :: "'q \<Rightarrow> 'q \<Rightarrow> 'p option"
  pathProjector :: "('p \<Rightarrow> 'p option) option"
  pathValidation :: "'p \<Rightarrow> bool \<times> 'p option"
  numberDof :: nat
  nodes :: "'rm \<Rightarrow> node list"
  nearestNode_in :: "'rm \<Rightarrow> 'q \<Rightarrow> cc \<Rightarrow> node \<times> real"
  nearestNode :: "'rm \<Rightarrow> 'q \<Rightarrow> node \<times> real"
  nodesWithinBall :: "'rm \<Rightarrow> 'q \<Rightarrow> cc \<Rightarrow> real \<Rightarrow> node list"
  addNode :: "'rm \<Rightarrow> 'q \<Rightarrow> node \<times> 'rm"
  addEdge :: "'rm \<Rightarrow> node \<Rightarrow> node \<Rightarrow> 'p \<Rightarrow> 'rm"
  connectedComponents_size :: "'rm \<Rightarrow> nat"
  connectedComponent :: "'rm \<Rightarrow> node \<Rightarrow> cc"
  configuration :: "'rm \<Rightarrow> node \<Rightarrow> 'q"
  outEdges :: "'rm \<Rightarrow> node \<Rightarrow> 'p edge list"
  initNode :: "'rm \<Rightarrow> node"
  goalNodes :: "'rm \<Rightarrow> node list"
  ndebug :: bool

text \<open>The members of \<^verbatim>\<open>BiRrtStar\<close>, with the roadmap it works on.\<close>

record ('p, 'rm) BiRrtStar =
  gamma :: real
  extendMaxLength :: real
  roots :: "node \<times> node"
  toRoot :: "'p ParentMap_t \<times> 'p ParentMap_t"
  roadmap :: 'rm

subsection \<open>\<^verbatim>\<open>validate\<close> and \<^verbatim>\<open>buildPath\<close>\<close>

definition validate :: "('q, 'p, 'rm) collaborators \<Rightarrow> 'p \<Rightarrow> bool" where
  "validate env path = fst (pathValidation env path)"

text \<open>
  \<^verbatim>\<open>PathPtr_t path = problem().steeringMethod()->steer(q0, q1);
  if (!path) return path;
  if (problem().pathProjector()) {
    PathPtr_t projected;
    problem().pathProjector()->apply (path, projected);
    if (!projected) return projected;
    path = projected;
  }
  if (maxLength > 0 && path->length() > maxLength) {
    const interval_t& I = path->timeRange();
    path = path->extract(I.first, I.first + maxLength);
  }
  if (!validatePath) return path;
  PathPtr_t validPart;
  PathValidationReportPtr_t report;
  problem().pathValidation()->validate (path, false, validPart, report);
  return validPart;\<close>
\<close>

definition buildPath ::
  "('q, 'p, 'rm) collaborators \<Rightarrow> 'q \<Rightarrow> 'q \<Rightarrow> real \<Rightarrow> bool \<Rightarrow> 'p option"
where
  "buildPath env q0 q1 maxLength validatePath =
     (case steer env q0 q1 of
        None \<Rightarrow> None
      | Some path \<Rightarrow>
          (case (case pathProjector env of
                   None \<Rightarrow> Some path
                 | Some apply_projector \<Rightarrow> apply_projector path) of
             None \<Rightarrow> None
           | Some path1 \<Rightarrow>
               (let path2 =
                      (if maxLength > 0 \<and> path_length env path1 > maxLength
                       then path_extract env path1 (fst (path_timeRange env path1))
                              (fst (path_timeRange env path1) + maxLength)
                       else path1)
                in if \<not> validatePath then Some path2
                   else snd (pathValidation env path2))))"

subsection \<open>The two loops that \<^verbatim>\<open>extend\<close> and \<^verbatim>\<open>improve\<close> share\<close>

text \<open>
  The radius of the ball, written twice in the file:
  \<^verbatim>\<open>std::min(gamma_ * std::pow(std::log(n)/n, 1./(value_type)problem().robot()->numberDof()),
           extendMaxLength_)\<close>
  with \<^verbatim>\<open>value_type n ((value_type)roadmap()->nodes().size())\<close>. For \<open>n \<ge> 1\<close> and a
  positive number of degrees of freedom, \<open>powr\<close> is \<^verbatim>\<open>std::pow\<close> on the reals.
\<close>

definition ballRadius :: "real \<Rightarrow> real \<Rightarrow> nat \<Rightarrow> nat \<Rightarrow> real" where
  "ballRadius gam maxLen nodeCount dof =
     min (gam * (ln (real nodeCount) / real nodeCount) powr (1 / real dof)) maxLen"

type_synonym 'p ValidatedPath_t = "bool \<times> 'p option"

text \<open>
  The choice of the parent, the same statements in \<^verbatim>\<open>extend\<close> (on \<^verbatim>\<open>parentMap\<close>,
  \<^verbatim>\<open>path\<close>) and in \<^verbatim>\<open>improve\<close> (on \<^verbatim>\<open>toRoot_[k]\<close>, \<^verbatim>\<open>toqnew\<close>):

  \<^verbatim>\<open>for (NodeVector_t::const_iterator _near = nearNodes.begin(); ...) {
    PathPtr_t near2new;
    if (*_near == near) {
      near2new = path;
      paths.push_back(ValidatedPath_t(true, near2new));
      continue;
    } else {
      near2new = buildPath(*(*_near)->configuration(), q, -1, false);
      paths.push_back(ValidatedPath_t(false, near2new));
    }
    if (!near2new) continue;
    value_type _cost_q = computeCost(parentMap, *_near) + near2new->length();
    if (_cost_q < cost_q) {
      paths.back().first = true;
      if (validate (problem(), near2new)) {
        cost_q = _cost_q;
        near = *_near;
        path = near2new;
      } else
        paths.back().second.reset();
    }
  }\<close>

  The state of the loop is \<^verbatim>\<open>cost_q\<close>, \<^verbatim>\<open>near\<close>, \<^verbatim>\<open>path\<close> and \<^verbatim>\<open>paths\<close>. An exception
  leaves the function (\<open>Inl\<close>); \<open>None\<close> is a call of \<^verbatim>\<open>computeCost\<close> that does not return.
\<close>

fun chooseParent ::
  "('q, 'p, 'rm) collaborators \<Rightarrow> 'rm \<Rightarrow> 'p ParentMap_t \<Rightarrow> 'q \<Rightarrow> node list \<Rightarrow>
     real \<times> node \<times> 'p \<times> 'p ValidatedPath_t list \<Rightarrow>
     (error + real \<times> node \<times> 'p \<times> 'p ValidatedPath_t list) option"
where
  "chooseParent env rm parentMap q [] s = Some (Inr s)"
| "chooseParent env rm parentMap q (n # nearNodes) (cost_q, near, path, paths) =
     (if n = near
      then chooseParent env rm parentMap q nearNodes
             (cost_q, near, path, paths @ [(True, Some path)])
      else
        (case buildPath env (configuration env rm n) q (- 1) False of
           None \<Rightarrow>
             chooseParent env rm parentMap q nearNodes (cost_q, near, path, paths @ [(False, None)])
         | Some near2new \<Rightarrow>
             (case computeCost (path_length env) parentMap n of
                None \<Rightarrow> None
              | Some (Inl err) \<Rightarrow> Some (Inl err)
              | Some (Inr c) \<Rightarrow>
                  (if c + path_length env near2new < cost_q
                   then
                     (if validate env near2new
                      then chooseParent env rm parentMap q nearNodes
                             (c + path_length env near2new, n, near2new,
                              paths @ [(True, Some near2new)])
                      else chooseParent env rm parentMap q nearNodes
                             (cost_q, near, path, paths @ [(True, None)]))
                   else chooseParent env rm parentMap q nearNodes
                          (cost_q, near, path, paths @ [(False, Some near2new)])))))"

text \<open>
  The rewiring, the same statements in both functions; \<^verbatim>\<open>improve\<close> has one more
  \<^verbatim>\<open>assert\<close>, kept when \<open>in_improve\<close> is set. The loop runs over \<^verbatim>\<open>nearNodes[i]\<close> and
  \<^verbatim>\<open>paths[i]\<close> together.

  \<^verbatim>\<open>for (std::size_t i = 0; i < nearNodes.size(); ++i) {
    if (nearNodes[i] == near || !paths[i].second) continue;
    value_type cost_q_near = cost_q + paths[i].second->length();
    if (cost_q_near < computeCost(parentMap, nearNodes[i])) {
      bool pathValid = paths[i].first;
      if (!pathValid) // If path validation has not been run
        pathValid = validate(problem(), paths[i].second);
      if (pathValid) {
        roadmap()->addEdge(nearNodes[i], qnew, paths[i].second);
        edge = roadmap()->addEdge(qnew, nearNodes[i], paths[i].second->reverse());
        assert(toRoot_[k].find(qnew) != toRoot_[k].end());   // improve only
        setParent(parentMap, nearNodes[i], edge);
      }
    }
  }\<close>
\<close>

fun rewire ::
  "('q, 'p, 'rm) collaborators \<Rightarrow> bool \<Rightarrow> node \<Rightarrow> real \<Rightarrow> node \<Rightarrow>
     (node \<times> 'p ValidatedPath_t) list \<Rightarrow> 'rm \<times> 'p ParentMap_t \<Rightarrow>
     (error + 'rm \<times> 'p ParentMap_t) option"
where
  "rewire env in_improve qnew cost_q near [] s = Some (Inr s)"
| "rewire env in_improve qnew cost_q near ((n, validated, second) # rest) (rm, parentMap) =
     (case second of
        None \<Rightarrow> rewire env in_improve qnew cost_q near rest (rm, parentMap)
      | Some p \<Rightarrow>
          if n = near then rewire env in_improve qnew cost_q near rest (rm, parentMap)
          else
            (case computeCost (path_length env) parentMap n of
               None \<Rightarrow> None
             | Some (Inl err) \<Rightarrow> Some (Inl err)
             | Some (Inr c) \<Rightarrow>
                 if cost_q + path_length env p < c
                 then
                   (let pathValid = (if \<not> validated then validate env p else validated)
                    in if pathValid
                       then
                         (let rm1 = addEdge env rm n qnew p;
                              rm2 = addEdge env rm1 qnew n (path_reverse env p);
                              edge = \<lparr>efrom = qnew, eto = n, epath = path_reverse env p\<rparr>
                          in if in_improve \<and> \<not> ndebug env \<and> parentMap qnew = None
                             then Some (Inl assertion_failure)
                             else
                               (case setParent (ndebug env) parentMap n (Some edge) of
                                  (Some err, parentMap1) \<Rightarrow> Some (Inl err)
                                | (None, parentMap1) \<Rightarrow>
                                    rewire env in_improve qnew cost_q near rest (rm2, parentMap1)))
                       else rewire env in_improve qnew cost_q near rest (rm, parentMap))
                 else rewire env in_improve qnew cost_q near rest (rm, parentMap)))"

subsection \<open>\<^verbatim>\<open>extend\<close>\<close>

text \<open>
  The result is the value returned, the configuration \<^verbatim>\<open>q\<close> (passed by reference), the
  roadmap and the parent map as the call leaves them.

  \<^verbatim>\<open>ConnectedComponentPtr_t cc (target->connectedComponent());
  value_type dist;
  NodePtr_t near = roadmap()->nearestNode(q, cc, dist);
  if (dist < 1e-16)
    return false;
  PathPtr_t path = buildPath(*near->configuration(), q, extendMaxLength_, true);
  if (!path || path->length() < 1e-10) return false;
  q = path->end();
  value_type n ((value_type)roadmap()->nodes().size());
  NodeVector_t nearNodes = roadmap()->nodesWithinBall(q, cc, std::min(...));
  value_type cost_q (computeCost(parentMap, near) + path->length());
  ... (the choice of the parent)
  NodePtr_t qnew = roadmap()->addNode(boost::make_shared<Configuration_t>(q));
  EdgePtr_t edge = roadmap()->addEdge(near, qnew, path);
  roadmap()->addEdge(qnew, near, path->reverse());
  assert(parentMap.find(near) != parentMap.end());
  setParent(parentMap, qnew, edge);
  ... (the rewiring)
  return true;\<close>
\<close>

definition extend ::
  "('q, 'p, 'rm) collaborators \<Rightarrow> real \<Rightarrow> real \<Rightarrow> 'rm \<Rightarrow> node \<Rightarrow> 'p ParentMap_t \<Rightarrow> 'q \<Rightarrow>
     (error + bool \<times> 'q \<times> 'rm \<times> 'p ParentMap_t) option"
where
  "extend env gam maxLen rm target parentMap q =
     (let cc = connectedComponent env rm target;
          near = fst (nearestNode_in env rm q cc);
          dist = snd (nearestNode_in env rm q cc)
      in if dist < 1 / 10 ^ 16 then Some (Inr (False, q, rm, parentMap))
         else
           (case buildPath env (configuration env rm near) q maxLen True of
              None \<Rightarrow> Some (Inr (False, q, rm, parentMap))
            | Some path \<Rightarrow>
                if path_length env path < 1 / 10 ^ 10 then Some (Inr (False, q, rm, parentMap))
                else
                  (let q1 = path_end env path;
                       nearNodes = nodesWithinBall env rm q1 cc
                         (ballRadius gam maxLen (length (nodes env rm)) (numberDof env))
                   in case computeCost (path_length env) parentMap near of
                        None \<Rightarrow> None
                      | Some (Inl err) \<Rightarrow> Some (Inl err)
                      | Some (Inr c) \<Rightarrow>
                          (case chooseParent env rm parentMap q1 nearNodes
                                  (c + path_length env path, near, path, []) of
                             None \<Rightarrow> None
                           | Some (Inl err) \<Rightarrow> Some (Inl err)
                           | Some (Inr (cost_q, near1, path1, paths)) \<Rightarrow>
                               (let qnew = fst (addNode env rm q1);
                                    rm1 = snd (addNode env rm q1);
                                    edge = \<lparr>efrom = near1, eto = qnew, epath = path1\<rparr>;
                                    rm2 = addEdge env rm1 near1 qnew path1;
                                    rm3 = addEdge env rm2 qnew near1 (path_reverse env path1)
                                in if \<not> ndebug env \<and> parentMap near1 = None
                                   then Some (Inl assertion_failure)
                                   else
                                     (case setParent (ndebug env) parentMap qnew (Some edge) of
                                        (Some err, parentMap1) \<Rightarrow> Some (Inl err)
                                      | (None, parentMap1) \<Rightarrow>
                                          (case rewire env False qnew cost_q near1
                                                  (zip nearNodes paths) (rm3, parentMap1) of
                                             None \<Rightarrow> None
                                           | Some (Inl err) \<Rightarrow> Some (Inl err)
                                           | Some (Inr (rm4, parentMap2)) \<Rightarrow>
                                               Some (Inr (True, q1, rm4, parentMap2)))))))))"

subsection \<open>\<^verbatim>\<open>connect\<close>\<close>

text \<open>
  \<^verbatim>\<open>Configuration_t qnew;
  while (roadmap()->connectedComponents().size() == 2) {
    qnew = q;
    if (!extend(b, parentMap, qnew)) return false;
  }
  return true;\<close>
\<close>

partial_function (option) connect ::
  "('q, 'p, 'rm) collaborators \<Rightarrow> real \<Rightarrow> real \<Rightarrow> node \<Rightarrow> 'q \<Rightarrow> 'rm \<times> 'p ParentMap_t \<Rightarrow>
     (error + bool \<times> 'rm \<times> 'p ParentMap_t) option"
where
  "connect env gam maxLen b q s =
     (if connectedComponents_size env (fst s) = 2
      then
        (case extend env gam maxLen (fst s) b (snd s) q of
           None \<Rightarrow> None
         | Some (Inl err) \<Rightarrow> Some (Inl err)
         | Some (Inr (ok, qnew, rm1, parentMap1)) \<Rightarrow>
             if \<not> ok then Some (Inr (False, rm1, parentMap1))
             else connect env gam maxLen b q (rm1, parentMap1))
      else Some (Inr (True, fst s, snd s)))"

subsection \<open>\<^verbatim>\<open>improve\<close>\<close>

text \<open>
  One turn of \<^verbatim>\<open>for (int k = 0; k < 2; ++k)\<close>, on \<^verbatim>\<open>toRoot_[k]\<close>. The variable \<^verbatim>\<open>near\<close>
  is declared before the loop and assigned in it, so a turn receives it from the turn
  before and hands it on; \<^verbatim>\<open>toqnew\<close> and \<^verbatim>\<open>cost_q\<close> are declared in the body.

  \<^verbatim>\<open>paths.clear();
  PathPtr_t toqnew (path);
  value_type cost_q (computeCost(toRoot_[k], near) + toqnew->length());
  ... (the choice of the parent, on near, toqnew, cost_q)
  EdgePtr_t edge = roadmap()->addEdge(near, qnew, toqnew);
  roadmap()->addEdge(qnew, near, toqnew->reverse());
  assert(toRoot_[k].find(near) != toRoot_[k].end());
  setParent(toRoot_[k], qnew, edge);
  ... (the rewiring)\<close>
\<close>

definition improve_pass ::
  "('q, 'p, 'rm) collaborators \<Rightarrow> 'q \<Rightarrow> 'p \<Rightarrow> node list \<Rightarrow> node \<Rightarrow>
     node \<times> 'rm \<times> 'p ParentMap_t \<Rightarrow> (error + node \<times> 'rm \<times> 'p ParentMap_t) option"
where
  "improve_pass env q path nearNodes qnew s =
     (let near = fst s; rm = fst (snd s); toRoot_k = snd (snd s);
          toqnew = path
      in case computeCost (path_length env) toRoot_k near of
           None \<Rightarrow> None
         | Some (Inl err) \<Rightarrow> Some (Inl err)
         | Some (Inr c) \<Rightarrow>
             (case chooseParent env rm toRoot_k q nearNodes
                     (c + path_length env toqnew, near, toqnew, []) of
                None \<Rightarrow> None
              | Some (Inl err) \<Rightarrow> Some (Inl err)
              | Some (Inr (cost_q, near1, toqnew1, paths)) \<Rightarrow>
                  (let edge = \<lparr>efrom = near1, eto = qnew, epath = toqnew1\<rparr>;
                       rm1 = addEdge env rm near1 qnew toqnew1;
                       rm2 = addEdge env rm1 qnew near1 (path_reverse env toqnew1)
                   in if \<not> ndebug env \<and> toRoot_k near1 = None
                      then Some (Inl assertion_failure)
                      else
                        (case setParent (ndebug env) toRoot_k qnew (Some edge) of
                           (Some err, toRoot_k1) \<Rightarrow> Some (Inl err)
                         | (None, toRoot_k1) \<Rightarrow>
                             (case rewire env True qnew cost_q near1
                                     (zip nearNodes paths) (rm2, toRoot_k1) of
                                None \<Rightarrow> None
                              | Some (Inl err) \<Rightarrow> Some (Inl err)
                              | Some (Inr (rm3, toRoot_k2)) \<Rightarrow>
                                  Some (Inr (near1, rm3, toRoot_k2)))))))"

text \<open>
  \<^verbatim>\<open>value_type dist;
  NodePtr_t near = roadmap()->nearestNode(q, dist);
  if (dist < 1e-16)
    return false;
  PathPtr_t path = buildPath(*near->configuration(), q, extendMaxLength_, true);
  if (!path || path->length() < 1e-10) return false;
  value_type n ((value_type)roadmap()->nodes().size());
  NodeVector_t nearNodes = roadmap()->nodesWithinBall(q, roots_[0]->connectedComponent(),
      std::min(...));
  NodePtr_t qnew = roadmap()->addNode(boost::make_shared<Configuration_t>(q));
  for (int k = 0; k < 2; ++k) { ... }
  return true;\<close>
\<close>

definition improve ::
  "('q, 'p, 'rm) collaborators \<Rightarrow> ('p, 'rm) BiRrtStar \<Rightarrow> 'q \<Rightarrow>
     (error + bool \<times> ('p, 'rm) BiRrtStar) option"
where
  "improve env st q =
     (let rm = roadmap st;
          near = fst (nearestNode env rm q);
          dist = snd (nearestNode env rm q)
      in if dist < 1 / 10 ^ 16 then Some (Inr (False, st))
         else
           (case buildPath env (configuration env rm near) q (extendMaxLength st) True of
              None \<Rightarrow> Some (Inr (False, st))
            | Some path \<Rightarrow>
                if path_length env path < 1 / 10 ^ 10 then Some (Inr (False, st))
                else
                  (let nearNodes = nodesWithinBall env rm q
                         (connectedComponent env rm (fst (roots st)))
                         (ballRadius (gamma st) (extendMaxLength st) (length (nodes env rm))
                            (numberDof env));
                       qnew = fst (addNode env rm q);
                       rm1 = snd (addNode env rm q)
                   in case improve_pass env q path nearNodes qnew (near, rm1, fst (toRoot st)) of
                        None \<Rightarrow> None
                      | Some (Inl err) \<Rightarrow> Some (Inl err)
                      | Some (Inr (near1, rm2, toRoot_0)) \<Rightarrow>
                          (case improve_pass env q path nearNodes qnew
                                  (near1, rm2, snd (toRoot st)) of
                             None \<Rightarrow> None
                           | Some (Inl err) \<Rightarrow> Some (Inl err)
                           | Some (Inr (near2, rm3, toRoot_1)) \<Rightarrow>
                               Some (Inr (True,
                                 st\<lparr>roadmap := rm3, toRoot := (toRoot_0, toRoot_1)\<rparr>))))))"

subsection \<open>\<^verbatim>\<open>startSolve\<close> and \<^verbatim>\<open>oneStep\<close>\<close>



text \<open>
  \<^verbatim>\<open>Configuration_t q = sample();
  if (roadmap()->connectedComponents().size() == 2) {
    if (extend(roots_[0], toRoot_[0], q)) {
      if (roots_[0]->connectedComponent() == roots_[1]->connectedComponent()) return;
      connect(roots_[1], toRoot_[1], q);
    }
    std::swap(roots_[0], roots_[1]);
    std::swap(toRoot_[0], toRoot_[1]);
  } else {
    if (toRoot_[1].find(roots_[0]) == toRoot_[1].end()) {
      toRoot_[0] = computeParentMap(roots_[0]);
      toRoot_[1] = computeParentMap(roots_[1]);
    }
    assert(toRoot_[0].size() == toRoot_[1].size());
    assert(toRoot_[0].size() == roadmap()->nodes().size());
    improve(q);
  }\<close>

  \<open>q\<close> is the configuration that \<^verbatim>\<open>sample()\<close> draws. The first two definitions are the
  statements before \<^verbatim>\<open>improve(q)\<close> in the second branch.
\<close>

definition fill_parent_maps ::
  "('q, 'p, 'rm) collaborators \<Rightarrow> ('p, 'rm) BiRrtStar \<Rightarrow> ('p, 'rm) BiRrtStar option"
where
  "fill_parent_maps env st =
     (if snd (toRoot st) (fst (roots st)) = None
      then
        (case computeParentMap (path_length env) (outEdges env (roadmap st)) (fst (roots st)) of
           None \<Rightarrow> None
         | Some toRoot_0 \<Rightarrow>
             (case computeParentMap (path_length env) (outEdges env (roadmap st))
                     (snd (roots st)) of
                None \<Rightarrow> None
              | Some toRoot_1 \<Rightarrow> Some (st\<lparr>toRoot := (toRoot_0, toRoot_1)\<rparr>)))
      else Some st)"

definition sizes_asserted :: "('q, 'p, 'rm) collaborators \<Rightarrow> ('p, 'rm) BiRrtStar \<Rightarrow> bool" where
  "sizes_asserted env st =
     (card (dom (fst (toRoot st))) = card (dom (snd (toRoot st))) \<and>
      card (dom (fst (toRoot st))) = length (nodes env (roadmap st)))"

definition oneStep ::
  "('q, 'p, 'rm) collaborators \<Rightarrow> ('p, 'rm) BiRrtStar \<Rightarrow> 'q \<Rightarrow>
     (error + ('p, 'rm) BiRrtStar) option"
where
  "oneStep env st q =
     (if connectedComponents_size env (roadmap st) = 2
      then
        (case extend env (gamma st) (extendMaxLength st) (roadmap st) (fst (roots st))
                (fst (toRoot st)) q of
           None \<Rightarrow> None
         | Some (Inl err) \<Rightarrow> Some (Inl err)
         | Some (Inr (extended, q1, rm1, toRoot_0)) \<Rightarrow>
             if extended
             then
               (if connectedComponent env rm1 (fst (roots st))
                     = connectedComponent env rm1 (snd (roots st))
                then Some (Inr (st\<lparr>roadmap := rm1, toRoot := (toRoot_0, snd (toRoot st))\<rparr>))
                else
                  (case connect env (gamma st) (extendMaxLength st) (snd (roots st)) q1
                          (rm1, snd (toRoot st)) of
                     None \<Rightarrow> None
                   | Some (Inl err) \<Rightarrow> Some (Inl err)
                   | Some (Inr (reached, rm2, toRoot_1)) \<Rightarrow>
                       Some (Inr (st\<lparr>roadmap := rm2,
                                     roots := (snd (roots st), fst (roots st)),
                                     toRoot := (toRoot_1, toRoot_0)\<rparr>))))
             else Some (Inr (st\<lparr>roadmap := rm1,
                                roots := (snd (roots st), fst (roots st)),
                                toRoot := (snd (toRoot st), toRoot_0)\<rparr>)))
      else
        (case fill_parent_maps env st of
           None \<Rightarrow> None
         | Some st1 \<Rightarrow>
             if \<not> ndebug env \<and> \<not> sizes_asserted env st1 then Some (Inl assertion_failure)
             else
               (case improve env st1 q of
                  None \<Rightarrow> None
                | Some (Inl err) \<Rightarrow> Some (Inl err)
                | Some (Inr (improved, st2)) \<Rightarrow> Some (Inr st2))))"

section \<open>A robot on a line\<close>

text \<open>
  One instance of the classes the planner calls, small enough to run the planner by hand:
  a robot with one degree of freedom, configurations on the real line, no obstacle.
  \<^item> A path is a segment, given by its two ends; its length is the distance between them,
    its time range starts at \<open>0\<close>; the steering method joins the two configurations; there
    is no path projector; path validation accepts every path whole.
  \<^item> A roadmap is the list of the configurations of its nodes (node \<open>n\<close> is the \<open>n\<close>-th),
    the connected component of each node (named by one of its nodes), and the list of its
    edges. \<^verbatim>\<open>addNode\<close> returns the node that has the configuration when there is one, and a
    new node in a component of its own otherwise; \<^verbatim>\<open>addEdge\<close> joins the components of the two
    ends (the planner adds every edge with its reverse). The nearest node is the first
    among the nearest; the ball of radius \<open>r\<close> holds the nodes at distance at most \<open>r\<close>.
\<close>

type_synonym line_path = "real \<times> real"

datatype line_roadmap =
  LineRoadmap (configs: "real list") (components: "nat list") (edges: "line_path edge list")
    (init_node: node) (goal_nodes: "node list")

definition line_length :: "line_path \<Rightarrow> real" where
  "line_length p = \<bar>snd p - fst p\<bar>"

definition line_extract :: "line_path \<Rightarrow> real \<Rightarrow> real \<Rightarrow> line_path" where
  "line_extract p t0 t1 =
     (fst p + sgn (snd p - fst p) * t0, fst p + sgn (snd p - fst p) * t1)"

fun nearest_among :: "real list \<Rightarrow> real \<Rightarrow> node list \<Rightarrow> node \<times> real \<Rightarrow> node \<times> real" where
  "nearest_among cs q [] best = best"
| "nearest_among cs q (n # ns) best =
     (if \<bar>cs ! n - q\<bar> < snd best then nearest_among cs q ns (n, \<bar>cs ! n - q\<bar>)
      else nearest_among cs q ns best)"

definition line_nearest :: "line_roadmap \<Rightarrow> real \<Rightarrow> node list \<Rightarrow> node \<times> real" where
  "line_nearest rm q candidates =
     (case candidates of
        [] \<Rightarrow> (0, 0)
      | n # ns \<Rightarrow> nearest_among (configs rm) q ns (n, \<bar>configs rm ! n - q\<bar>))"

definition line_nodes_of :: "line_roadmap \<Rightarrow> cc \<Rightarrow> node list" where
  "line_nodes_of rm c = filter (\<lambda>n. components rm ! n = c) [0..<length (configs rm)]"

definition line_nodesWithinBall :: "line_roadmap \<Rightarrow> real \<Rightarrow> cc \<Rightarrow> real \<Rightarrow> node list" where
  "line_nodesWithinBall rm q c r =
     filter (\<lambda>n. \<bar>configs rm ! n - q\<bar> \<le> r) (line_nodes_of rm c)"

fun index_of :: "real list \<Rightarrow> real \<Rightarrow> nat" where
  "index_of [] q = 0"
| "index_of (c # cs) q = (if c = q then 0 else Suc (index_of cs q))"

definition line_addNode :: "line_roadmap \<Rightarrow> real \<Rightarrow> node \<times> line_roadmap" where
  "line_addNode rm q =
     (if q \<in> set (configs rm) then (index_of (configs rm) q, rm)
      else (length (configs rm),
            LineRoadmap (configs rm @ [q]) (components rm @ [length (configs rm)]) (edges rm)
              (init_node rm) (goal_nodes rm)))"

definition line_addEdge :: "line_roadmap \<Rightarrow> node \<Rightarrow> node \<Rightarrow> line_path \<Rightarrow> line_roadmap" where
  "line_addEdge rm a b p =
     LineRoadmap (configs rm)
       (map (\<lambda>c. if c = components rm ! b then components rm ! a else c) (components rm))
       (edges rm @ [\<lparr>efrom = a, eto = b, epath = p\<rparr>])
       (init_node rm) (goal_nodes rm)"

definition line_env :: "(real, line_path, line_roadmap) collaborators" where
  "line_env =
     \<lparr>path_length = line_length,
      path_end = snd,
      path_reverse = (\<lambda>p. (snd p, fst p)),
      path_timeRange = (\<lambda>p. (0, line_length p)),
      path_extract = line_extract,
      steer = (\<lambda>q0 q1. Some (q0, q1)),
      pathProjector = None,
      pathValidation = (\<lambda>p. (True, Some p)),
      numberDof = 1,
      nodes = (\<lambda>rm. [0..<length (configs rm)]),
      nearestNode_in = (\<lambda>rm q c. line_nearest rm q (line_nodes_of rm c)),
      nearestNode = (\<lambda>rm q. line_nearest rm q [0..<length (configs rm)]),
      nodesWithinBall = line_nodesWithinBall,
      addNode = line_addNode,
      addEdge = line_addEdge,
      connectedComponents_size = (\<lambda>rm. length (remdups (components rm))),
      connectedComponent = (\<lambda>rm n. components rm ! n),
      configuration = (\<lambda>rm n. configs rm ! n),
      outEdges = (\<lambda>rm n. filter (\<lambda>e. efrom e = n) (edges rm)),
      initNode = init_node,
      goalNodes = goal_nodes,
      ndebug = False\<rparr>"

text \<open>The roadmap of a problem with the initial configuration \<open>a\<close> and the goal \<open>b\<close>,
  and the planner after \<^verbatim>\<open>startSolve\<close> with the default values of its two parameters.\<close>

definition line_problem :: "real \<Rightarrow> real \<Rightarrow> line_roadmap" where
  "line_problem a b =
     LineRoadmap [a, b] [0, 1] [] 0 [1]"

definition line_planner :: "real \<Rightarrow> real \<Rightarrow> (line_path, line_roadmap) BiRrtStar" where
  "line_planner a b =
     \<lparr>gamma = 1, extendMaxLength = 1, roots = (0, 1),
      toRoot = ([0 \<mapsto> None], [1 \<mapsto> None]), roadmap = line_problem a b\<rparr>"

text \<open>The same with \<^verbatim>\<open>BiRRT*/gamma\<close> set to \<open>16\<close> and \<^verbatim>\<open>BiRRT*/maxStepLength\<close> to \<open>4\<close>: on a
  roadmap of two nodes the radius of the ball is then \<open>min (8 ln 2) 4 = 4\<close>.\<close>

definition line_planner_wide :: "real \<Rightarrow> real \<Rightarrow> (line_path, line_roadmap) BiRrtStar" where
  "line_planner_wide a b =
     \<lparr>gamma = 16, extendMaxLength = 4, roots = (0, 1),
      toRoot = ([0 \<mapsto> None], [1 \<mapsto> None]), roadmap = line_problem a b\<rparr>"

text \<open>Four states met below: the default planner from \<open>0\<close> to \<open>1\<close> after one and after two
  calls of \<^verbatim>\<open>oneStep\<close>, and the wide planner from \<open>0\<close> to \<open>4\<close> after one and after two.\<close>

definition line_after_one :: "(line_path, line_roadmap) BiRrtStar" where
  "line_after_one =
     \<lparr>gamma = 1, extendMaxLength = 1, roots = (1, 0),
      toRoot = ([1 \<mapsto> None, 2 \<mapsto> Some \<lparr>efrom = 1, eto = 2, epath = (1, 1 / 2)\<rparr>],
                [0 \<mapsto> None, 2 \<mapsto> Some \<lparr>efrom = 0, eto = 2, epath = (0, 1 / 2)\<rparr>]),
      roadmap = LineRoadmap [0, 1, 1 / 2] [1, 1, 1]
        [\<lparr>efrom = 0, eto = 2, epath = (0, 1 / 2)\<rparr>, \<lparr>efrom = 2, eto = 0, epath = (1 / 2, 0)\<rparr>,
         \<lparr>efrom = 1, eto = 2, epath = (1, 1 / 2)\<rparr>, \<lparr>efrom = 2, eto = 1, epath = (1 / 2, 1)\<rparr>]
        0 [1]\<rparr>"

definition line_after_two :: "(line_path, line_roadmap) BiRrtStar" where
  "line_after_two =
     line_after_one
       \<lparr>toRoot := ([1 \<mapsto> None, 2 \<mapsto> Some \<lparr>efrom = 1, eto = 2, epath = (1, 1 / 2)\<rparr>,
                    0 \<mapsto> Some \<lparr>efrom = 2, eto = 0, epath = (1 / 2, 0)\<rparr>],
                   [0 \<mapsto> None, 2 \<mapsto> Some \<lparr>efrom = 0, eto = 2, epath = (0, 1 / 2)\<rparr>,
                    1 \<mapsto> Some \<lparr>efrom = 2, eto = 1, epath = (1 / 2, 1)\<rparr>])\<rparr>"

definition line_wide_merged :: "(line_path, line_roadmap) BiRrtStar" where
  "line_wide_merged =
     \<lparr>gamma = 16, extendMaxLength = 4, roots = (0, 1),
      toRoot = ([0 \<mapsto> None, 1 \<mapsto> Some \<lparr>efrom = 0, eto = 1, epath = (0, 4)\<rparr>],
                [1 \<mapsto> None]),
      roadmap = LineRoadmap [0, 4] [0, 0]
        [\<lparr>efrom = 0, eto = 1, epath = (0, 4)\<rparr>, \<lparr>efrom = 1, eto = 0, epath = (4, 0)\<rparr>]
        0 [1]\<rparr>"

definition line_wide_improved :: "(line_path, line_roadmap) BiRrtStar" where
  "line_wide_improved =
     \<lparr>gamma = 16, extendMaxLength = 4, roots = (0, 1),
      toRoot = ([0 \<mapsto> None, 1 \<mapsto> Some \<lparr>efrom = 0, eto = 1, epath = (0, 4)\<rparr>,
                 2 \<mapsto> Some \<lparr>efrom = 0, eto = 2, epath = (0, 3)\<rparr>],
                [1 \<mapsto> None, 2 \<mapsto> Some \<lparr>efrom = 1, eto = 2, epath = (4, 3)\<rparr>,
                 0 \<mapsto> Some \<lparr>efrom = 2, eto = 0, epath = (3, 4)\<rparr>]),
      roadmap = LineRoadmap [0, 4, 3] [0, 0, 0]
        [\<lparr>efrom = 0, eto = 1, epath = (0, 4)\<rparr>, \<lparr>efrom = 1, eto = 0, epath = (4, 0)\<rparr>,
         \<lparr>efrom = 0, eto = 2, epath = (0, 3)\<rparr>, \<lparr>efrom = 2, eto = 0, epath = (3, 0)\<rparr>,
         \<lparr>efrom = 1, eto = 2, epath = (4, 3)\<rparr>, \<lparr>efrom = 2, eto = 1, epath = (3, 4)\<rparr>,
         \<lparr>efrom = 0, eto = 2, epath = (4, 3)\<rparr>, \<lparr>efrom = 2, eto = 0, epath = (3, 4)\<rparr>]
        0 [1]\<rparr>"

text \<open>The wide planner after \<^verbatim>\<open>oneStep\<close> has filled both parent maps, before \<^verbatim>\<open>improve\<close>.\<close>

definition line_wide_filled :: "(line_path, line_roadmap) BiRrtStar" where
  "line_wide_filled =
     line_wide_merged
       \<lparr>toRoot := ([0 \<mapsto> None, 1 \<mapsto> Some \<lparr>efrom = 0, eto = 1, epath = (0, 4)\<rparr>],
                   [1 \<mapsto> None, 0 \<mapsto> Some \<lparr>efrom = 1, eto = 0, epath = (4, 0)\<rparr>])\<rparr>"

section \<open>Properties of the parent map\<close>

text \<open>The parent chain of a node, as a relation: \<open>chain_cost len m n c\<close> holds when following
  the parents from \<open>n\<close> reaches an entry with a null edge and the lengths on the way sum to \<open>c\<close>.\<close>

inductive chain_cost :: "('p \<Rightarrow> real) \<Rightarrow> 'p ParentMap_t \<Rightarrow> node \<Rightarrow> real \<Rightarrow> bool"
  for len :: "'p \<Rightarrow> real" and m :: "'p ParentMap_t"
where
  chain_root: "m n = Some None \<Longrightarrow> chain_cost len m n 0"
| chain_step: "m n = Some (Some e) \<Longrightarrow> chain_cost len m (efrom e) c \<Longrightarrow>
     chain_cost len m n (len (epath e) + c)"

inductive chain_breaks :: "'p ParentMap_t \<Rightarrow> node \<Rightarrow> bool"
  for m :: "'p ParentMap_t"
where
  breaks_here: "m n = None \<Longrightarrow> chain_breaks m n"
| breaks_above: "m n = Some (Some e) \<Longrightarrow> chain_breaks m (efrom e) \<Longrightarrow> chain_breaks m n"

section \<open>Notions used to state and prove the properties of the tree builder\<close>

text \<open>\<open>reaches E a b\<close>: the node \<open>b\<close> is reached from \<open>a\<close> by following out-edges.\<close>

inductive reaches :: "(node \<Rightarrow> 'p edge list) \<Rightarrow> node \<Rightarrow> node \<Rightarrow> bool"
  for E :: "node \<Rightarrow> 'p edge list" and a :: node
where
  reaches_refl: "reaches E a a"
| reaches_step: "reaches E a b \<Longrightarrow> e \<in> set (E b) \<Longrightarrow> reaches E a (eto e)"

text \<open>
  For the proof that the loop of \<^verbatim>\<open>computeParentMap\<close> ends, every element of the queue is
  paired with the list of the nodes on the way from the root to the node that pushed it
  (its ancestors). The loop on such pairs does to the elements what the loop of the
  program does, and keeps the ancestors up to date.
\<close>

type_synonym 'p traced = "'p WeighedNode_t \<times> node list"

definition traced_top :: "'p traced list \<Rightarrow> 'p traced" where
  "traced_top tq = the (find (\<lambda>y. fst y = queue_top (map fst tq)) tq)"

definition traced_step ::
  "('p \<Rightarrow> real) \<Rightarrow> (node \<Rightarrow> 'p edge list) \<Rightarrow> 'p Visited_t \<times> 'p traced list \<Rightarrow>
     'p Visited_t \<times> 'p traced list"
where
  "traced_step len out_edges s =
     (let visited = fst s; tq = snd s;
          current = fst (traced_top tq);
          ancestors = snd (traced_top tq);
          tq1 = remove1 (traced_top tq) tq;
          res = (case visited (node current) of
                   None \<Rightarrow> (visited(node current \<mapsto> current), True)
                 | Some w \<Rightarrow>
                     if cost w > cost current
                     then (visited(node current \<mapsto> w\<lparr>cost := cost current, parent := parent current\<rparr>), True)
                     else (visited, False));
          visited1 = fst res; addChildren = snd res
      in if addChildren
         then (visited1,
               tq1 @ map (\<lambda>edge. (\<lparr>node = eto edge, parent = Some edge,
                                    cost = cost current + len (epath edge)\<rparr>,
                                   ancestors @ [node current]))
                       (out_edges (node current)))
         else (visited1, tq1))"

definition untraced :: "'p Visited_t \<times> 'p traced list \<Rightarrow> 'p Visited_t \<times> 'p Queue_t" where
  "untraced s = (fst s, map fst (snd s))"

text \<open>An element with its ancestors is in order, for the set \<open>V\<close> of the nodes, when the
  ancestors are distinct nodes, each visited at a cost that is not greater than the cost
  of the element.\<close>

definition traced_ok :: "node set \<Rightarrow> 'p Visited_t \<Rightarrow> 'p traced \<Rightarrow> bool" where
  "traced_ok V visited x =
     (distinct (snd x) \<and> set (snd x) \<subseteq> V \<and> node (fst x) \<in> V \<and>
      list_all (\<lambda>u. case visited u of None \<Rightarrow> False | Some v \<Rightarrow> cost v \<le> cost (fst x)) (snd x))"

definition traced_rank :: "node set \<Rightarrow> 'p traced \<Rightarrow> nat" where
  "traced_rank V x = Suc (card V) - length (snd x)"

text \<open>What the loop keeps true of the nodes, for the root \<open>r\<close>: every node visited or in
  the queue is reached from \<open>r\<close>; \<open>r\<close> is visited or in the queue; the out-edges of a
  visited node lead to nodes that are visited or in the queue.\<close>

definition covering :: "(node \<Rightarrow> 'p edge list) \<Rightarrow> node \<Rightarrow> 'p Visited_t \<times> 'p Queue_t \<Rightarrow> bool" where
  "covering E r s =
     ((\<forall>n \<in> dom (fst s) \<union> node ` set (snd s). reaches E r n) \<and>
      r \<in> dom (fst s) \<union> node ` set (snd s) \<and>
      (\<forall>n \<in> dom (fst s). \<forall>e \<in> set (E n). eto e \<in> dom (fst s) \<union> node ` set (snd s)))"

text \<open>\<open>walk_cost len E a b d\<close>: following out-edges from \<open>a\<close> reaches \<open>b\<close>, and the lengths of
  the paths of the edges followed sum to \<open>d\<close>.\<close>

inductive walk_cost ::
  "('p \<Rightarrow> real) \<Rightarrow> (node \<Rightarrow> 'p edge list) \<Rightarrow> node \<Rightarrow> node \<Rightarrow> real \<Rightarrow> bool"
  for len :: "'p \<Rightarrow> real" and E :: "node \<Rightarrow> 'p edge list" and a :: node
where
  walk_refl: "walk_cost len E a a 0"
| walk_step: "walk_cost len E a b d \<Longrightarrow> e \<in> set (E b) \<Longrightarrow>
     walk_cost len E a (eto e) (d + len (epath e))"

text \<open>What the loop keeps true of the costs, for the root \<open>r\<close>, once the root is visited:
  the root is recorded with no parent at cost \<open>0\<close>; every other visited node, and every
  element of the queue, records an out-edge that ends at it and starts at a visited node,
  at a cost that is at least the cost recorded for that node plus the length of the edge;
  for every out-edge of a visited node, its end is visited at a cost that is at most the
  cost of the node plus the length of the edge, or an element of the queue will make it
  so; the parent chain of every visited node ends at a null edge.\<close>

definition settled ::
  "('p \<Rightarrow> real) \<Rightarrow> (node \<Rightarrow> 'p edge list) \<Rightarrow> node \<Rightarrow> 'p Visited_t \<times> 'p Queue_t \<Rightarrow> bool"
where
  "settled len E r s =
     ((\<exists>w. fst s r = Some w \<and> parent w = None \<and> cost w = 0) \<and>
      (\<forall>n v. fst s n = Some v \<and> n \<noteq> r \<longrightarrow>
         (\<exists>e u. parent v = Some e \<and> eto e = n \<and> e \<in> set (E (efrom e)) \<and>
                fst s (efrom e) = Some u \<and> cost u + len (epath e) \<le> cost v)) \<and>
      (\<forall>w \<in> set (snd s). 0 \<le> cost w \<and>
         (\<exists>e u. parent w = Some e \<and> eto e = node w \<and> e \<in> set (E (efrom e)) \<and>
                fst s (efrom e) = Some u \<and> cost u + len (epath e) \<le> cost w)) \<and>
      (\<forall>n v. fst s n = Some v \<longrightarrow>
         (\<forall>e \<in> set (E n).
            (\<exists>u. fst s (eto e) = Some u \<and> cost u \<le> cost v + len (epath e)) \<or>
            (\<exists>w \<in> set (snd s). node w = eto e \<and> cost w \<le> cost v + len (epath e)))) \<and>
      (\<forall>n \<in> dom (fst s). \<exists>c. chain_cost len (map_option parent \<circ> fst s) n c))"

lemma computeCost_loop_chain:
  "chain_cost len m n c \<Longrightarrow> computeCost_loop len m n a = Some (Inr (a + c))"
proof (induction arbitrary: a rule: chain_cost.induct)
  case (chain_root n)
  then show ?case by (subst computeCost_loop.simps) simp
next
  case (chain_step n e c)
  show ?case
    using chain_step.hyps(1) chain_step.IH [of "a + len (epath e)"]
    by (subst computeCost_loop.simps) (simp add: add.assoc)
qed

lemma computeCost_loop_never_throws:
  "computeCost_loop len m n a = Some r \<Longrightarrow> r \<noteq> Inl (logic_error msg)"
proof (induction rule: computeCost_loop.raw_induct [rotated 1, consumes 1])
  case (1 loop len m current c r)
  then show ?case
    by (auto split: option.splits if_splits)
qed

lemma computeCost_loop_breaks:
  "chain_breaks m n \<Longrightarrow> computeCost_loop len m n a = Some (Inl end_iterator_dereference)"
proof (induction arbitrary: a rule: chain_breaks.induct)
  case (breaks_here n)
  then show ?case by (subst computeCost_loop.simps) simp
next
  case (breaks_above n e)
  show ?case
    using breaks_above.hyps(1) breaks_above.IH [of "a + len (epath e)"]
    by (subst computeCost_loop.simps) simp
qed

text \<open>
  C4. \<^verbatim>\<open>computeCost\<close> on a parent chain that reaches a node absent from the map: the
  loop condition dereferences \<^verbatim>\<open>map.end()\<close> before the body can throw, so the call does not
  end with the \<^verbatim>\<open>logic_error\<close> "this node has no parent." (\<open>OrphanNode\<close>); on a chain
  that reaches a null parent it returns the sum of the path lengths.
\<close>

theorem computeCost_broken_chain:
  "(chain_breaks m n \<longrightarrow>
      computeCost len m n = Some (Inl end_iterator_dereference) \<and>
      computeCost len m n \<noteq> Some (Inl OrphanNode)) \<and>
   (chain_cost len m n c \<longrightarrow> computeCost len m n = Some (Inr c))"
  by (simp add: computeCost_def computeCost_loop_breaks computeCost_loop_chain OrphanNode_def)

theorem computeCost_broken_chain_witness:
  "computeCost (\<lambda>p::real. p) [0 \<mapsto> Some \<lparr>efrom = 1, eto = 0, epath = 2\<rparr>] 0
     = Some (Inl end_iterator_dereference) \<and>
   computeCost (\<lambda>p::real. p)
     [0 \<mapsto> Some \<lparr>efrom = 1, eto = 0, epath = 2\<rparr>, 1 \<mapsto> None] 0 = Some (Inr 2)"
proof -
  let ?e = "\<lparr>efrom = 1, eto = 0, epath = 2::real\<rparr>"
  have b: "chain_breaks [0 \<mapsto> Some ?e] 0"
    by (rule breaks_above [where e = ?e]) (simp_all add: breaks_here)
  have "chain_cost (\<lambda>p::real. p) [0 \<mapsto> Some ?e, 1 \<mapsto> None] 0 ((\<lambda>p. p) (epath ?e) + 0)"
    by (rule chain_step) (simp_all add: chain_root)
  then have k: "chain_cost (\<lambda>p::real. p) [0 \<mapsto> Some ?e, 1 \<mapsto> None] 0 2" by simp
  show ?thesis
    using computeCost_broken_chain [of "[0 \<mapsto> Some ?e]" 0 "\<lambda>p. p" 0]
      computeCost_broken_chain [of "[0 \<mapsto> Some ?e, 1 \<mapsto> None]" 0 "\<lambda>p. p" 2] b k
    by blast
qed

text \<open>
  C8, as the claim states it, fails: an edge whose \<^verbatim>\<open>to()\<close> is not \<open>n\<close> is caught by an
  \<^verbatim>\<open>assert\<close>, not by the exception; without assertions the call succeeds and writes the
  entry.
\<close>

theorem setParent_wrong_to_counterexample:
  "fst (setParent False [1 \<mapsto> None] 2 (Some \<lparr>efrom = 1, eto = 3, epath = ()\<rparr>))
     = Some assertion_failure \<and>
   setParent True [1 \<mapsto> None] 2 (Some \<lparr>efrom = 1, eto = 3, epath = ()\<rparr>)
     = (None, [1 \<mapsto> None, 2 \<mapsto> Some \<lparr>efrom = 1, eto = 3, epath = ()\<rparr>])"
  by (simp add: setParent_def)

text \<open>
  C8, amended. \<^verbatim>\<open>setParent\<close> fails with the \<^verbatim>\<open>logic_error\<close> "could not find node from
  of edge in parent map." (\<open>ParentMapInconsistent\<close>) exactly when the edge is present, its
  \<^verbatim>\<open>from()\<close> is not a key of the map, and the assertion \<^verbatim>\<open>e->to() == n\<close> holds or is
  compiled out. Every failure leaves the map unchanged, and a call that does not fail
  returns the map with \<open>n\<close> mapped to the edge.
\<close>

theorem setParent_result:
  "(fst (setParent ndbg m n e) = Some ParentMapInconsistent \<longleftrightarrow>
      (\<exists>ed. e = Some ed \<and> m (efrom ed) = None \<and> (ndbg \<or> eto ed = n))) \<and>
   (fst (setParent ndbg m n e) \<noteq> None \<longrightarrow> snd (setParent ndbg m n e) = m) \<and>
   (fst (setParent ndbg m n e) = None \<longrightarrow> snd (setParent ndbg m n e) = m(n \<mapsto> e))"
  by (auto simp: setParent_def ParentMapInconsistent_def split: option.splits)

theorem setParent_result_witness:
  "fst (setParent False [1 \<mapsto> None] 2 (Some \<lparr>efrom = 5, eto = 2, epath = ()\<rparr>))
     = Some ParentMapInconsistent \<and>
   snd (setParent False [1 \<mapsto> None] 2 (Some \<lparr>efrom = 5, eto = 2, epath = ()\<rparr>))
     = [1 \<mapsto> None] \<and>
   snd (setParent False [1 \<mapsto> None] 2 (Some \<lparr>efrom = 1, eto = 2, epath = ()\<rparr>))
     = [1 \<mapsto> None, 2 \<mapsto> Some \<lparr>efrom = 1, eto = 2, epath = ()\<rparr>]"
proof -
  have a: "fst (setParent False [1 \<mapsto> None] 2 (Some \<lparr>efrom = 1, eto = 2, epath = ()\<rparr>)) = None"
    by (simp add: setParent_def)
  show ?thesis
    using setParent_result [of False "[1 \<mapsto> None]" 2 "Some \<lparr>efrom = 5, eto = 2, epath = ()\<rparr>"]
      setParent_result [of False "[1 \<mapsto> None]" 2 "Some \<lparr>efrom = 1, eto = 2, epath = ()\<rparr>"] a
    by simp
qed

section \<open>The order in which the queue is popped\<close>

lemma queue_top_from_greatest:
  "cost best \<le> cost (queue_top_from best xs) \<and>
   (\<forall>w \<in> set xs. cost w \<le> cost (queue_top_from best xs))"
proof (induction xs arbitrary: best)
  case Nil
  then show ?case by simp
next
  case (Cons x xs)
  show ?case
    using Cons.IH [of x] Cons.IH [of best]
    by (auto simp: less_WeighedNode_def)
qed

lemma queue_top_from_member: "queue_top_from best xs \<in> set (best # xs)"
  by (induction xs arbitrary: best) auto

lemma queue_top_member: "queue \<noteq> [] \<Longrightarrow> queue_top queue \<in> set queue"
  using queue_top_from_member [of "hd queue" "tl queue"]
  by (cases queue) (simp_all add: queue_top_def)

lemma queue_top_greatest:
  "w \<in> set queue \<Longrightarrow> cost w \<le> cost (queue_top queue)"
  using queue_top_from_greatest [of "hd queue" "tl queue"]
  by (cases queue) (auto simp: queue_top_def)

text \<open>
  C1. On the roadmap with the edges \<open>0 \<rightarrow> 1\<close> of length 1 and \<open>0 \<rightarrow> 2\<close> of length 5, after
  the root is popped the queue holds node 1 at cost 1 and node 2 at cost 5, and the next
  element popped is node 2, of cost 5: \<^verbatim>\<open>std::priority_queue\<close> with \<^verbatim>\<open>operator<\<close> on the
  cost returns the greatest accumulated cost first, not the least.
\<close>

theorem computeParentMap_pops_greatest_cost:
  "snd (computeParentMap_step (\<lambda>p::real. p)
          (\<lambda>n. if n = 0 then [\<lparr>efrom = 0, eto = 1, epath = 1\<rparr>, \<lparr>efrom = 0, eto = 2, epath = 5\<rparr>]
                else [])
          (computeParentMap_init 0))
     = [\<lparr>node = 1, parent = Some \<lparr>efrom = 0, eto = 1, epath = 1\<rparr>, cost = 1\<rparr>,
        \<lparr>node = 2, parent = Some \<lparr>efrom = 0, eto = 2, epath = 5\<rparr>, cost = 5\<rparr>] \<and>
   queue_top
     [\<lparr>node = 1, parent = Some \<lparr>efrom = 0, eto = 1, epath = 1::real\<rparr>, cost = 1\<rparr>,
      \<lparr>node = 2, parent = Some \<lparr>efrom = 0, eto = 2, epath = 5\<rparr>, cost = 5\<rparr>]
     = \<lparr>node = 2, parent = Some \<lparr>efrom = 0, eto = 2, epath = 5\<rparr>, cost = 5\<rparr>"
  by (simp add: computeParentMap_step_def computeParentMap_init_def queue_top_def
      queue_pop_def queue_push_def less_WeighedNode_def Let_def)

section \<open>Runs of the planner on the line\<close>

lemmas line_simps = line_env_def line_planner_def line_problem_def line_length_def
  line_extract_def line_nearest_def line_nodes_of_def line_nodesWithinBall_def
  line_addNode_def line_addEdge_def

lemmas planner_simps = oneStep_def extend_def improve_def improve_pass_def buildPath_def
  validate_def computeCost_def computeCost_loop.simps setParent_def Let_def

lemma ln2_bounds: "0 < ln (2::real)" "ln (2::real) < 1"
proof -
  show "0 < ln (2::real)" by simp
  have "ln (2::real) \<le> 2 - 1" by (rule ln_le_minus_one) simp
  moreover have "ln (2::real) \<noteq> 1"
  proof
    assume "ln (2::real) = 1"
    then have "exp (ln (2::real)) = exp 1" by simp
    then have "exp (1::real) = 2" by simp
    moreover have "(1::real) + 1 + 1\<^sup>2 / 2 \<le> exp 1" by (rule exp_lower_Taylor_quadratic) simp
    ultimately show False by simp
  qed
  ultimately show "ln (2::real) < 1" by simp
qed

lemma ln2_ge_half: "1 / 2 \<le> ln (2::real)"
proof -
  have "exp (1 / 2 :: real) * exp (1 / 2) = exp 1"
    by (simp flip: exp_add)
  then have "exp (1 / 2 :: real) * exp (1 / 2) \<le> 3"
    using exp_le by simp
  moreover have "2 < exp (1 / 2 :: real) \<Longrightarrow> 2 * 2 < exp (1 / 2 :: real) * exp (1 / 2)"
    by (intro mult_strict_mono) simp_all
  ultimately have "exp (1 / 2 :: real) \<le> 2"
    by fastforce
  then show ?thesis
    using ln_ge_iff [of 2 "1 / 2"] by simp
qed


text \<open>The radius of the ball in the runs below: with the default parameters it is
  \<open>ln 2 / 2\<close> on two nodes and \<open>ln 3 / 3\<close> on three, both below \<open>1 / 2\<close>; with \<open>\<gamma> = 16\<close> and
  a maximal length of \<open>4\<close> it is \<open>4\<close> on two nodes.\<close>

lemma ballRadius_2_nodes: "0 < ballRadius 1 1 2 1" "ballRadius 1 1 2 1 < 1"
  using ln2_bounds by (simp_all add: ballRadius_def)


lemma ballRadius_wide: "ballRadius 16 4 (Suc (Suc 0)) (Suc 0) = 4"
  using ln2_ge_half by (simp add: ballRadius_def)

lemmas cpm_simps = computeParentMap_def computeParentMap_loop.simps computeParentMap_step_def
  computeParentMap_init_def queue_top_def queue_pop_def queue_push_def less_WeighedNode_def
  fill_parent_maps_def sizes_asserted_def

lemmas line_states = line_after_one_def line_after_two_def line_wide_merged_def
  line_wide_improved_def line_planner_wide_def line_wide_filled_def numeral_2_eq_2






lemma line_wide_first_step:
  "oneStep line_env (line_planner_wide 0 4) 4 = Some (Inr line_wide_merged)"
  by (simp add: line_simps line_states planner_simps ballRadius_wide)

lemma line_wide_second_step:
  "oneStep line_env line_wide_merged 3 = Some (Inr line_wide_improved)"
  by (simp add: line_simps line_states planner_simps cpm_simps ballRadius_wide)

lemma line_wide_fill: "fill_parent_maps line_env line_wide_merged = Some line_wide_filled"
  by (simp add: line_simps line_states cpm_simps)



lemma line_lengths:
  "\<forall>p. 0 \<le> path_length line_env p"
  "\<forall>p. path_length line_env (path_reverse line_env p) = path_length line_env p"
  by (simp_all add: line_env_def line_length_def abs_minus_commute)

text \<open>
  C2. The planner from \<open>0\<close> to \<open>4\<close> with \<open>\<gamma> = 16\<close> and a maximal length of \<open>4\<close> reaches the
  refinement phase after one call; the next call, with the sample \<open>3\<close>, runs \<^verbatim>\<open>improve\<close>.
  The nearest node is the goal (node 1, at \<open>4\<close>), and the path built from it goes from
  \<open>4\<close> to \<open>3\<close>. The first pass, on \<open>toRoot[0]\<close>, chooses node 0 and hands it to the
  second pass as \<^verbatim>\<open>near\<close>, while \<^verbatim>\<open>toqnew\<close> is again the path from \<open>4\<close> to \<open>3\<close>: the
  second pass starts from node 0 with a path that does not start at node 0. It records
  that path as validated for node 0, and the rewiring gives node 0, at \<open>0\<close>, the parent
  edge from the new node with the path from \<open>3\<close> to \<open>4\<close>, of length 1.
\<close>

theorem improve_second_pass_starts_from_first_choice:
  "oneStep line_env (line_planner_wide 0 4) 4 = Some (Inr line_wide_merged) \<and>
   nearestNode line_env (roadmap line_wide_merged) 3 = (1, 1) \<and>
   buildPath line_env (configuration line_env (roadmap line_wide_merged) 1) 3 4 True
     = Some (4, 3) \<and>
   map_option (map_sum id fst)
     (improve_pass line_env 3 (4, 3) [0, 1] 2
        (1, snd (addNode line_env (roadmap line_wide_merged) 3),
         [0 \<mapsto> None, 1 \<mapsto> Some \<lparr>efrom = 0, eto = 1, epath = (0, 4)\<rparr>]))
     = Some (Inr 0) \<and>
   oneStep line_env line_wide_merged 3 = Some (Inr line_wide_improved) \<and>
   snd (toRoot line_wide_improved) 0 = Some (Some \<lparr>efrom = 2, eto = 0, epath = (3, 4)\<rparr>) \<and>
   configuration line_env (roadmap line_wide_improved) 0 = 0"
  using line_wide_first_step line_wide_second_step
  by (simp add: line_simps line_states planner_simps)

section \<open>The driver\<close>



section \<open>\<^verbatim>\<open>extend\<close> and \<^verbatim>\<open>improve\<close>\<close>

subsection \<open>The calls that add nothing\<close>


text \<open>
  C9. \<^verbatim>\<open>extend\<close> returns false, with \<open>q\<close>, the roadmap and the parent map as they were
  (and without an exception), when the nearest node of the component of the target is at a
  distance below \<open>1e-16\<close>, when \<^verbatim>\<open>buildPath\<close> (with \<^verbatim>\<open>extendMaxLength_\<close> and validation) gives
  no path, and when the path is shorter than \<open>1e-10\<close>. In every other case a call that
  returns has returned true and has replaced \<open>q\<close> by the end of that path.
\<close>

theorem extend_returns_false:
  "((snd (nearestNode_in env rm q (connectedComponent env rm target)) < 1 / 10 ^ 16 \<or>
     buildPath env
       (configuration env rm (fst (nearestNode_in env rm q (connectedComponent env rm target))))
       q maxLen True = None \<or>
     (\<exists>path. buildPath env
        (configuration env rm (fst (nearestNode_in env rm q (connectedComponent env rm target))))
        q maxLen True = Some path \<and> path_length env path < 1 / 10 ^ 10))
    \<longrightarrow> extend env gam maxLen rm target parentMap q = Some (Inr (False, q, rm, parentMap))) \<and>
   (\<forall>path res rm' parentMap' q'.
      \<not> snd (nearestNode_in env rm q (connectedComponent env rm target)) < 1 / 10 ^ 16 \<and>
      buildPath env
        (configuration env rm (fst (nearestNode_in env rm q (connectedComponent env rm target))))
        q maxLen True = Some path \<and>
      \<not> path_length env path < 1 / 10 ^ 10 \<and>
      extend env gam maxLen rm target parentMap q = Some (Inr (res, q', rm', parentMap'))
      \<longrightarrow> res \<and> q' = path_end env path)"
  by (auto simp: extend_def Let_def split: option.splits sum.splits prod.splits if_splits)

theorem extend_returns_false_witness:
  "extend line_env 1 1 (line_problem 0 1) 0 [0 \<mapsto> None] 0
     = Some (Inr (False, 0, line_problem 0 1, [0 \<mapsto> None])) \<and>
   (\<exists>rm' parentMap'. extend line_env 1 1 (line_problem 0 1) 0 [0 \<mapsto> None] (1 / 2)
     = Some (Inr (True, 1 / 2, rm', parentMap')))"
proof -
  have d0: "snd (nearestNode_in line_env (line_problem 0 1) 0
              (connectedComponent line_env (line_problem 0 1) 0)) < 1 / 10 ^ 16"
    by (simp add: line_simps)
  have d1: "\<not> snd (nearestNode_in line_env (line_problem 0 1) (1 / 2)
              (connectedComponent line_env (line_problem 0 1) 0)) < 1 / 10 ^ 16"
    by (simp add: line_simps)
  have b1: "buildPath line_env
        (configuration line_env (line_problem 0 1)
           (fst (nearestNode_in line_env (line_problem 0 1) (1 / 2)
              (connectedComponent line_env (line_problem 0 1) 0))))
        (1 / 2) 1 True = Some (0, 1 / 2)"
    by (simp add: line_simps buildPath_def)
  have l1: "\<not> path_length line_env (0, 1 / 2) < 1 / 10 ^ 10"
    by (simp add: line_simps)
  obtain rm' parentMap' where
    e1: "extend line_env 1 1 (line_problem 0 1) 0 [0 \<mapsto> None] (1 / 2)
           = Some (Inr (True, 1 / 2, rm', parentMap'))"
    using ballRadius_2_nodes by (simp add: line_simps planner_simps)
  show ?thesis
    using extend_returns_false [of line_env "line_problem 0 1" 0 0 1 1 "[0 \<mapsto> None]"] d0
      extend_returns_false [of line_env "line_problem 0 1" "1 / 2" 0 1 1 "[0 \<mapsto> None]"]
      d1 b1 l1 e1
    by blast
qed

subsection \<open>The radius of the ball\<close>

lemma buildPath_ball [simp]:
  "buildPath (env\<lparr>nodesWithinBall := f\<rparr>) q0 q1 maxLength v = buildPath env q0 q1 maxLength v"
  by (simp add: buildPath_def cong: option.case_cong if_cong)

lemma validate_ball [simp]: "validate (env\<lparr>nodesWithinBall := f\<rparr>) p = validate env p"
  by (simp add: validate_def)

lemma chooseParent_ball [simp]:
  "chooseParent (env\<lparr>nodesWithinBall := f\<rparr>) rm parentMap q ns s
     = chooseParent env rm parentMap q ns s"
proof (induction ns arbitrary: s)
  case Nil
  then show ?case by simp
next
  case (Cons n ns)
  obtain cost_q near path paths where s: "s = (cost_q, near, path, paths)"
    by (cases s)
  show ?case
    unfolding s by (simp add: Cons.IH cong: option.case_cong sum.case_cong if_cong)
qed

lemma rewire_ball [simp]:
  "rewire (env\<lparr>nodesWithinBall := f\<rparr>) b qnew cost_q near cands s
     = rewire env b qnew cost_q near cands s"
proof (induction cands arbitrary: s)
  case Nil
  then show ?case by simp
next
  case (Cons x cands)
  obtain n validated second where x: "x = (n, validated, second)"
    by (cases x)
  obtain rm parentMap where s: "s = (rm, parentMap)"
    by (cases s)
  show ?case
    unfolding x s
    by (simp add: Cons.IH Let_def cong: option.case_cong sum.case_cong prod.case_cong if_cong)
qed

lemma improve_pass_ball [simp]:
  "improve_pass (env\<lparr>nodesWithinBall := f\<rparr>) q path nearNodes qnew s
     = improve_pass env q path nearNodes qnew s"
  by (simp add: improve_pass_def Let_def
      cong: option.case_cong sum.case_cong prod.case_cong if_cong)

text \<open>
  C6. \<^verbatim>\<open>extend\<close> and \<^verbatim>\<open>improve\<close> ask the roadmap for the nodes within a ball only with the
  radius \<open>min (\<gamma> (ln N / N)\<^bsup>1/d\<^esup>) extendMaxLength\<close>, where \<open>N\<close> is the number of nodes of
  the roadmap they are called on (the new node is added later) and \<open>d\<close> the number of
  degrees of freedom: replacing \<^verbatim>\<open>nodesWithinBall\<close> by any function \<open>f\<close> that agrees with it
  at this radius, on this roadmap, changes the result of neither.
\<close>

theorem ball_query_radius:
  assumes "N = length (nodes env (roadmap st))"
    and "\<forall>q' c. f (roadmap st) q' c
            (min (gamma st * (ln (real N) / real N) powr (1 / real (numberDof env)))
               (extendMaxLength st))
          = nodesWithinBall env (roadmap st) q' c
              (min (gamma st * (ln (real N) / real N) powr (1 / real (numberDof env)))
                 (extendMaxLength st))"
  shows "extend (env\<lparr>nodesWithinBall := f\<rparr>) (gamma st) (extendMaxLength st) (roadmap st)
             target parentMap q
           = extend env (gamma st) (extendMaxLength st) (roadmap st) target parentMap q \<and>
         improve (env\<lparr>nodesWithinBall := f\<rparr>) st q = improve env st q"
proof
  show "extend (env\<lparr>nodesWithinBall := f\<rparr>) (gamma st) (extendMaxLength st) (roadmap st)
             target parentMap q
           = extend env (gamma st) (extendMaxLength st) (roadmap st) target parentMap q"
    using assms
    by (simp add: extend_def ballRadius_def Let_def
        cong: option.case_cong sum.case_cong prod.case_cong if_cong)
  show "improve (env\<lparr>nodesWithinBall := f\<rparr>) st q = improve env st q"
    using assms
    by (simp add: improve_def ballRadius_def Let_def
        cong: option.case_cong sum.case_cong prod.case_cong if_cong)
qed

theorem ball_query_radius_witness:
  "extend (line_env\<lparr>nodesWithinBall :=
              (\<lambda>rm q c r. if r = ballRadius 1 1 2 1 then line_nodesWithinBall rm q c r
                          else [0, 1])\<rparr>)
       1 1 (line_problem 0 1) 0 [0 \<mapsto> None] (1 / 2)
     = extend line_env 1 1 (line_problem 0 1) 0 [0 \<mapsto> None] (1 / 2) \<and>
   improve (line_env\<lparr>nodesWithinBall :=
              (\<lambda>rm q c r. if r = ballRadius 1 1 2 1 then line_nodesWithinBall rm q c r
                          else [0, 1])\<rparr>)
       (line_planner 0 1) (1 / 2)
     = improve line_env (line_planner 0 1) (1 / 2)"
proof -
  let ?f = "\<lambda>rm q c r. if r = ballRadius 1 1 2 1 then line_nodesWithinBall rm q c r
                        else [0, 1]"
  have n: "2 = length (nodes line_env (roadmap (line_planner 0 1)))"
    by (simp add: line_env_def line_planner_def line_problem_def)
  have a: "\<forall>q' c. ?f (roadmap (line_planner 0 1)) q' c
            (min (gamma (line_planner 0 1)
                    * (ln (real 2) / real 2) powr (1 / real (numberDof line_env)))
               (extendMaxLength (line_planner 0 1)))
          = nodesWithinBall line_env (roadmap (line_planner 0 1)) q' c
              (min (gamma (line_planner 0 1)
                      * (ln (real 2) / real 2) powr (1 / real (numberDof line_env)))
                 (extendMaxLength (line_planner 0 1)))"
    by (simp add: ballRadius_def line_env_def line_planner_def)
  have g: "gamma (line_planner 0 1) = 1" "extendMaxLength (line_planner 0 1) = 1"
    "roadmap (line_planner 0 1) = line_problem 0 1"
    by (simp_all add: line_planner_def)
  have "extend (line_env\<lparr>nodesWithinBall := ?f\<rparr>) (gamma (line_planner 0 1))
            (extendMaxLength (line_planner 0 1)) (roadmap (line_planner 0 1)) 0
            [0 \<mapsto> None] (1 / 2)
          = extend line_env (gamma (line_planner 0 1)) (extendMaxLength (line_planner 0 1))
              (roadmap (line_planner 0 1)) 0 [0 \<mapsto> None] (1 / 2) \<and>
        improve (line_env\<lparr>nodesWithinBall := ?f\<rparr>) (line_planner 0 1) (1 / 2)
          = improve line_env (line_planner 0 1) (1 / 2)"
    by (rule ball_query_radius [where N = 2 and f = ?f]) (rule n, rule a)
  then show ?thesis
    unfolding g .
qed

section \<open>Costs along the parent chain\<close>



lemma chain_cost_mapped: "chain_cost len m n c \<Longrightarrow> m n \<noteq> None"
  by (induction rule: chain_cost.induct) simp_all

lemma computeCost_loop_sound:
  "computeCost_loop len m n a = Some r \<Longrightarrow> r = Inr c \<Longrightarrow> chain_cost len m n (c - a)"
proof (induction arbitrary: c rule: computeCost_loop.raw_induct [rotated 1, consumes 1])
  case (1 loop len m current a r)
  show ?case
  proof (cases "m current")
    case None
    with 1 show ?thesis by simp
  next
    case (Some eo)
    show ?thesis
    proof (cases eo)
      case None
      with 1 Some show ?thesis by (simp add: chain_root)
    next
      case (Some e)
      with 1(2) \<open>m current = Some eo\<close>
      have "loop len m (efrom e) (a + len (epath e)) = Some r" by simp
      from 1(1) [OF this 1(3)]
      have "chain_cost len m (efrom e) (c - (a + len (epath e)))" .
      with chain_step [of m current e len "c - (a + len (epath e))"] Some \<open>m current = Some eo\<close>
      show ?thesis by (simp add: algebra_simps)
    qed
  qed
qed

lemma computeCost_iff_chain_cost:
  "computeCost len m n = Some (Inr c) \<longleftrightarrow> chain_cost len m n c"
  using computeCost_loop_sound [of len m n 0 "Inr c" c] computeCost_loop_chain [of len m n c 0]
  by (auto simp: computeCost_def)


text \<open>A chain is the same in two maps that agree on its nodes; with lengths that are not
  negative, these are nodes of no greater cost.\<close>

lemma chain_cost_cong:
  "chain_cost len m x cx \<Longrightarrow> (\<And>y cy. chain_cost len m y cy \<Longrightarrow> m' y = m y) \<Longrightarrow>
     chain_cost len m' x cx"
proof (induction rule: chain_cost.induct)
  case (chain_root x)
  have "chain_cost len m x 0"
    using chain_root.hyps by (rule chain_cost.chain_root)
  then have "m' x = Some None"
    using chain_root.prems chain_root.hyps by simp
  then show ?case by (rule chain_cost.chain_root)
next
  case (chain_step x e c0)
  have "chain_cost len m x (len (epath e) + c0)"
    using chain_step.hyps by (rule chain_cost.chain_step)
  then have "m' x = Some (Some e)"
    using chain_step.prems chain_step.hyps(1) by simp
  moreover have "chain_cost len m' (efrom e) c0"
    using chain_step.prems by (rule chain_step.IH)
  ultimately show ?case by (rule chain_cost.chain_step)
qed






section \<open>The choice of the parent and the rewiring\<close>



subsection \<open>Costs\<close>




subsection \<open>What a call of \<^verbatim>\<open>extend\<close> or a pass of \<^verbatim>\<open>improve\<close> does to the parent map\<close>










section \<open>The parent entry of a root\<close>








section \<open>The tree builder: it ends, and what it returns\<close>

subsection \<open>The loop ends\<close>

lemma foldl_queue_push:
  "foldl (\<lambda>qu e. queue_push qu (f e)) queue es = queue @ map f es"
  by (induction es arbitrary: queue) (simp_all add: queue_push_def)

lemma traced_top_found:
  assumes "tq \<noteq> []"
  shows "find (\<lambda>y. fst y = queue_top (map fst tq)) tq = Some (traced_top tq)"
proof -
  from assms have "queue_top (map fst tq) \<in> set (map fst tq)"
    by (intro queue_top_member) simp
  then have "\<exists>y \<in> set tq. fst y = queue_top (map fst tq)"
    by force
  then have "find (\<lambda>y. fst y = queue_top (map fst tq)) tq \<noteq> None"
    using find_None_iff [of "\<lambda>y. fst y = queue_top (map fst tq)" tq] by blast
  then show ?thesis
    by (auto simp: traced_top_def)
qed

lemma traced_top_member: "tq \<noteq> [] \<Longrightarrow> traced_top tq \<in> set tq"
  using traced_top_found [of tq] by (auto simp: find_Some_iff)

lemma traced_top_fst: "tq \<noteq> [] \<Longrightarrow> fst (traced_top tq) = queue_top (map fst tq)"
  using traced_top_found [of tq] by (auto simp: find_Some_iff)

lemma map_fst_remove1_found:
  "find (\<lambda>y. fst y = t) tq = Some x \<Longrightarrow> map fst (remove1 x tq) = remove1 t (map fst tq)"
proof (induction tq)
  case Nil
  then show ?case by simp
next
  case (Cons y ys)
  show ?case
  proof (cases "fst y = t")
    case True
    with Cons.prems show ?thesis by simp
  next
    case False
    with Cons.prems have f: "find (\<lambda>y. fst y = t) ys = Some x" by simp
    then have "fst x = t" by (auto simp: find_Some_iff)
    with False have "x \<noteq> y" by auto
    with False Cons.IH [OF f] show ?thesis by simp
  qed
qed

lemma untraced_step:
  assumes "snd s \<noteq> []"
  shows "untraced (traced_step len E s) = computeParentMap_step len E (untraced s)"
proof -
  have pop: "map fst (remove1 (traced_top (snd s)) (snd s)) = queue_pop (map fst (snd s))"
    using map_fst_remove1_found [OF traced_top_found [OF assms]]
    by (simp add: queue_pop_def)
  show ?thesis
    by (simp add: untraced_def traced_step_def computeParentMap_step_def Let_def
        foldl_queue_push traced_top_fst [OF assms] pop comp_def
        cong: option.case_cong if_cong)
qed

lemma traced_ok_mono:
  assumes "traced_ok V visited x"
    and "\<And>u v. visited u = Some v \<Longrightarrow> \<exists>v'. visited' u = Some v' \<and> cost v' \<le> cost v"
  shows "traced_ok V visited' x"
proof -
  have "list_all (\<lambda>u. case visited' u of None \<Rightarrow> False | Some v \<Rightarrow> cost v \<le> cost (fst x)) (snd x)"
    unfolding list_all_iff
  proof
    fix u
    assume "u \<in> set (snd x)"
    with assms(1) obtain v where v: "visited u = Some v" "cost v \<le> cost (fst x)"
      by (auto simp: traced_ok_def list_all_iff split: option.splits)
    from assms(2) [OF v(1)] obtain v' where "visited' u = Some v'" "cost v' \<le> cost v"
      by blast
    with v(2) show "case visited' u of None \<Rightarrow> False | Some v \<Rightarrow> cost v \<le> cost (fst x)"
      by simp
  qed
  with assms(1) show ?thesis by (simp add: traced_ok_def)
qed

lemma traced_ok_child:
  assumes ok: "traced_ok V visited x"
    and closed: "\<forall>n \<in> V. \<forall>e \<in> set (E n). eto e \<in> V"
    and nonneg: "\<forall>p. 0 \<le> len p"
    and e: "e \<in> set (E (node (fst x)))"
    and expand: "visited (node (fst x)) = None \<or>
                 (\<exists>w. visited (node (fst x)) = Some w \<and> cost w > cost (fst x))"
    and new: "visited' (node (fst x)) = Some w'" "cost w' = cost (fst x)"
    and others: "\<And>u. u \<noteq> node (fst x) \<Longrightarrow> visited' u = visited u"
  shows "traced_ok V visited'
           (\<lparr>node = eto e, parent = Some e, cost = cost (fst x) + len (epath e)\<rparr>,
            snd x @ [node (fst x)])"
proof -
  have anc: "\<And>u. u \<in> set (snd x) \<Longrightarrow> \<exists>v. visited u = Some v \<and> cost v \<le> cost (fst x)"
    using ok by (auto simp: traced_ok_def list_all_iff split: option.splits)
  have notin: "node (fst x) \<notin> set (snd x)"
  proof
    assume "node (fst x) \<in> set (snd x)"
    from anc [OF this] expand show False by auto
  qed
  have le: "cost (fst x) \<le> cost (fst x) + len (epath e)"
    using nonneg [rule_format, of "epath e"] by simp
  have "list_all (\<lambda>u. case visited' u of None \<Rightarrow> False
                      | Some v \<Rightarrow> cost v \<le> cost (fst x) + len (epath e))
          (snd x @ [node (fst x)])"
    unfolding list_all_iff
  proof
    fix u
    assume "u \<in> set (snd x @ [node (fst x)])"
    then consider "u \<in> set (snd x)" | "u = node (fst x)" by auto
    then show "case visited' u of None \<Rightarrow> False
               | Some v \<Rightarrow> cost v \<le> cost (fst x) + len (epath e)"
    proof cases
      case 1
      with notin have "u \<noteq> node (fst x)" by auto
      with others anc [OF 1] le show ?thesis by auto
    next
      case 2
      with new le show ?thesis by simp
    qed
  qed
  moreover have "eto e \<in> V"
    using ok closed e by (auto simp: traced_ok_def)
  ultimately show ?thesis
    using ok notin by (simp add: traced_ok_def cong: option.case_cong)
qed

lemma traced_step_ok:
  assumes closed: "\<forall>n \<in> V. \<forall>e \<in> set (E n). eto e \<in> V"
    and nonneg: "\<forall>p. 0 \<le> len p"
    and ok: "\<forall>x \<in> set (snd s). traced_ok V (fst s) x"
    and ne: "snd s \<noteq> []"
  shows "\<forall>x \<in> set (snd (traced_step len E s)). traced_ok V (fst (traced_step len E s)) x"
proof -
  let ?x0 = "traced_top (snd s)"
  let ?cur = "fst ?x0"
  let ?child = "\<lambda>edge. (\<lparr>node = eto edge, parent = Some edge,
                            cost = cost ?cur + len (epath edge)\<rparr>, snd ?x0 @ [node ?cur])"
  have x0: "?x0 \<in> set (snd s)" using ne by (rule traced_top_member)
  with ok have ok0: "traced_ok V (fst s) ?x0" by blast
  have rest: "\<And>x. x \<in> set (remove1 ?x0 (snd s)) \<Longrightarrow> traced_ok V (fst s) x"
    using ok by (auto dest: notin_set_remove1)
  have expanded: "\<forall>x \<in> set (remove1 ?x0 (snd s) @ map ?child (E (node ?cur))). traced_ok V v1 x"
    if mono: "\<And>u v. fst s u = Some v \<Longrightarrow> \<exists>v'. v1 u = Some v' \<and> cost v' \<le> cost v"
      and expand: "fst s (node ?cur) = None \<or> (\<exists>w. fst s (node ?cur) = Some w \<and> cost w > cost ?cur)"
      and new: "v1 (node ?cur) = Some w'" "cost w' = cost ?cur"
      and others: "\<And>u. u \<noteq> node ?cur \<Longrightarrow> v1 u = fst s u"
    for v1 w'
  proof
    fix x
    assume "x \<in> set (remove1 ?x0 (snd s) @ map ?child (E (node ?cur)))"
    then consider "x \<in> set (remove1 ?x0 (snd s))"
      | e where "e \<in> set (E (node ?cur))" "x = ?child e"
      by auto
    then show "traced_ok V v1 x"
    proof cases
      case 1
      then have "traced_ok V (fst s) x" by (rule rest)
      then show ?thesis using mono by (rule traced_ok_mono)
    next
      case 2
      from ok0 closed nonneg 2(1) expand new others have "traced_ok V v1 (?child e)"
        by (rule traced_ok_child)
      with 2(2) show ?thesis by simp
    qed
  qed
  show ?thesis
  proof (cases "fst s (node ?cur)")
    case None
    let ?v1 = "(fst s)(node ?cur \<mapsto> ?cur)"
    have eq: "traced_step len E s = (?v1, remove1 ?x0 (snd s) @ map ?child (E (node ?cur)))"
      by (simp add: traced_step_def Let_def None)
    have "\<forall>x \<in> set (remove1 ?x0 (snd s) @ map ?child (E (node ?cur))). traced_ok V ?v1 x"
    proof (rule expanded [where w' = ?cur])
      show "\<exists>v'. ?v1 u = Some v' \<and> cost v' \<le> cost v" if "fst s u = Some v" for u v
        using that None by auto
    qed (simp_all add: None)
    then show ?thesis unfolding eq by simp
  next
    case (Some w)
    show ?thesis
    proof (cases "cost w > cost ?cur")
      case True
      let ?v1 = "(fst s)(node ?cur \<mapsto> w\<lparr>cost := cost ?cur, parent := parent ?cur\<rparr>)"
      have eq: "traced_step len E s = (?v1, remove1 ?x0 (snd s) @ map ?child (E (node ?cur)))"
        by (simp add: traced_step_def Let_def Some True)
      have "\<forall>x \<in> set (remove1 ?x0 (snd s) @ map ?child (E (node ?cur))). traced_ok V ?v1 x"
      proof (rule expanded [where w' = "w\<lparr>cost := cost ?cur, parent := parent ?cur\<rparr>"])
        show "\<exists>v'. ?v1 u = Some v' \<and> cost v' \<le> cost v" if "fst s u = Some v" for u v
          using that Some True by auto
      qed (simp_all add: Some True)
      then show ?thesis unfolding eq by simp
    next
      case False
      have eq: "traced_step len E s = (fst s, remove1 ?x0 (snd s))"
        by (simp add: traced_step_def Let_def Some False)
      show ?thesis unfolding eq using rest by simp
    qed
  qed
qed

lemma mset_map_remove1:
  "x \<in> set xs \<Longrightarrow> mset (map f xs) = add_mset (f x) (mset (map f (remove1 x xs)))"
  by (induction xs) auto

lemma traced_step_decreases:
  assumes fin: "finite V"
    and ok: "\<forall>x \<in> set (snd s). traced_ok V (fst s) x"
    and ne: "snd s \<noteq> []"
  shows "(mset (map (traced_rank V) (snd (traced_step len E s))),
          mset (map (traced_rank V) (snd s))) \<in> mult1 less_than"
proof -
  let ?x0 = "traced_top (snd s)"
  let ?cur = "fst ?x0"
  let ?children = "map (\<lambda>edge. (\<lparr>node = eto edge, parent = Some edge,
                                   cost = cost ?cur + len (epath edge)\<rparr>,
                                  snd ?x0 @ [node ?cur])) (E (node ?cur))"
  have x0: "?x0 \<in> set (snd s)" using ne by (rule traced_top_member)
  with ok have "distinct (snd ?x0)" "set (snd ?x0) \<subseteq> V"
    by (auto simp: traced_ok_def)
  then have "length (snd ?x0) \<le> card V"
    using fin by (metis card_mono distinct_card)
  then have small: "\<And>c. c \<in> set ?children \<Longrightarrow> traced_rank V c < traced_rank V ?x0"
    by (auto simp: traced_rank_def)
  define K where "K = (if snd (traced_step len E s) = remove1 ?x0 (snd s) then [] else ?children)"
  have K: "snd (traced_step len E s) = remove1 ?x0 (snd s) @ K" "K = [] \<or> K = ?children"
    by (auto simp: K_def traced_step_def Let_def)
  show ?thesis
  proof (rule mult1I)
    show "mset (map (traced_rank V) (snd s))
            = add_mset (traced_rank V ?x0) (mset (map (traced_rank V) (remove1 ?x0 (snd s))))"
      using x0 by (rule mset_map_remove1)
    show "mset (map (traced_rank V) (snd (traced_step len E s)))
            = mset (map (traced_rank V) (remove1 ?x0 (snd s))) + mset (map (traced_rank V) K)"
      using K(1) by simp
    fix b
    assume "b \<in># mset (map (traced_rank V) K)"
    with K(2) small show "(b, traced_rank V ?x0) \<in> less_than"
      by auto
  qed
qed

lemma traced_loop_ends:
  assumes fin: "finite V"
    and closed: "\<forall>n \<in> V. \<forall>e \<in> set (E n). eto e \<in> V"
    and nonneg: "\<forall>p. 0 \<le> len p"
  shows "\<forall>x \<in> set (snd s). traced_ok V (fst s) x \<Longrightarrow>
    \<exists>visited. computeParentMap_loop len E (untraced s) = Some visited"
proof (induction s rule: wf_induct_rule
    [OF wf_inv_image [OF wf_mult1 [OF wf_less_than],
       of "\<lambda>s. mset (map (traced_rank V) (snd s))"]])
  case (1 s)
  show ?case
  proof (cases "snd s = []")
    case True
    then show ?thesis
      by (subst computeParentMap_loop.simps) (simp add: untraced_def)
  next
    case False
    let ?s' = "traced_step len E s"
    have "(?s', s) \<in> inv_image (mult1 less_than) (\<lambda>s. mset (map (traced_rank V) (snd s)))"
      using traced_step_decreases [OF fin "1.prems" False] by simp
    moreover have "\<forall>x \<in> set (snd ?s'). traced_ok V (fst ?s') x"
      using closed nonneg "1.prems" False by (rule traced_step_ok)
    ultimately obtain visited where "computeParentMap_loop len E (untraced ?s') = Some visited"
      using "1.IH" by blast
    then have "computeParentMap_loop len E (computeParentMap_step len E (untraced s)) = Some visited"
      by (simp add: untraced_step [OF False])
    moreover have "snd (untraced s) \<noteq> []"
      using False by (simp add: untraced_def)
    ultimately show ?thesis
      by (subst computeParentMap_loop.simps) simp
  qed
qed

lemma computeParentMap_ends:
  assumes "finite V" and "\<forall>n \<in> V. \<forall>e \<in> set (E n). eto e \<in> V" and "\<forall>p. 0 \<le> len p"
    and "r \<in> V"
  shows "\<exists>m. computeParentMap len E r = Some m"
proof -
  let ?s = "(Map.empty, [(\<lparr>node = r, parent = None, cost = 0\<rparr>, [])])
              :: 'a Visited_t \<times> 'a traced list"
  have "\<forall>x \<in> set (snd ?s). traced_ok V (fst ?s) x"
    using assms(4) by (simp add: traced_ok_def)
  with traced_loop_ends [OF assms(1-3), of ?s]
  obtain visited where "computeParentMap_loop len E (untraced ?s) = Some visited"
    by blast
  moreover have "untraced ?s = computeParentMap_init r"
    by (simp add: untraced_def computeParentMap_init_def queue_push_def)
  ultimately show ?thesis
    by (simp add: computeParentMap_def)
qed

subsection \<open>What the loop keeps true\<close>

lemma computeParentMap_loop_invariant:
  assumes "computeParentMap_loop len E s = Some visited"
    and "P s"
    and "\<And>s. P s \<Longrightarrow> snd s \<noteq> [] \<Longrightarrow> P (computeParentMap_step len E s)"
  shows "P (visited, [])"
proof -
  have "computeParentMap_loop len' E' s = Some v \<Longrightarrow> len' = len \<Longrightarrow> E' = E \<Longrightarrow> P s \<Longrightarrow> P (v, [])"
    for len' E' s v
  proof (induction rule: computeParentMap_loop.raw_induct [rotated 1, consumes 1])
    case (1 loop len' E' s v)
    show ?case
    proof (cases "snd s = []")
      case True
      with 1(2) have "s = (v, [])" by (cases s) simp
      with 1(5) show ?thesis by simp
    next
      case False
      with 1(2) have "loop len' E' (computeParentMap_step len' E' s) = Some v" by simp
      moreover have "P (computeParentMap_step len' E' s)"
        using assms(3) [OF 1(5) False] 1(3,4) by simp
      ultimately show ?thesis using 1(1) 1(3,4) by blast
    qed
  qed
  with assms(1,2) show ?thesis by blast
qed

lemma computeParentMap_step_cases:
  fixes s :: "'p Visited_t \<times> 'p Queue_t"
  defines "current \<equiv> queue_top (snd s)"
  obtains
    (expand) visited1 where
      "computeParentMap_step len E s =
         (visited1, queue_pop (snd s) @
            map (\<lambda>e. \<lparr>node = eto e, parent = Some e, cost = cost current + len (epath e)\<rparr>)
              (E (node current)))"
      "dom visited1 = insert (node current) (dom (fst s))"
      "\<And>u. u \<noteq> node current \<Longrightarrow> visited1 u = fst s u"
      "\<exists>w. visited1 (node current) = Some w \<and> cost w = cost current \<and>
           parent w = parent current"
      "fst s (node current) = None \<or>
       (\<exists>w. fst s (node current) = Some w \<and> cost current < cost w)"
  | (keep) w where
      "fst s (node current) = Some w" "\<not> cost current < cost w"
      "computeParentMap_step len E s = (fst s, queue_pop (snd s))"
proof (cases "fst s (node current)")
  case None
  show ?thesis
  proof (rule expand [of "(fst s)(node current \<mapsto> current)"])
    show "computeParentMap_step len E s =
         ((fst s)(node current \<mapsto> current), queue_pop (snd s) @
            map (\<lambda>e. \<lparr>node = eto e, parent = Some e, cost = cost current + len (epath e)\<rparr>)
              (E (node current)))"
      using None by (simp add: computeParentMap_step_def Let_def foldl_queue_push current_def)
  qed (simp_all add: None)
next
  case (Some w)
  show ?thesis
  proof (cases "cost current < cost w")
    case True
    let ?v1 = "(fst s)(node current \<mapsto> w\<lparr>cost := cost current, parent := parent current\<rparr>)"
    show ?thesis
    proof (rule expand [of ?v1])
      show "computeParentMap_step len E s =
           (?v1, queue_pop (snd s) @
              map (\<lambda>e. \<lparr>node = eto e, parent = Some e, cost = cost current + len (epath e)\<rparr>)
                (E (node current)))"
        using Some True
        by (simp add: computeParentMap_step_def Let_def foldl_queue_push current_def)
      show "dom ?v1 = insert (node current) (dom (fst s))"
        by simp
    qed (simp_all add: Some True)
  next
    case False
    show ?thesis
    proof (rule keep [of w])
      show "computeParentMap_step len E s = (fst s, queue_pop (snd s))"
        using Some False by (simp add: computeParentMap_step_def Let_def current_def)
    qed (simp_all add: Some False)
  qed
qed

lemma queue_pop_sets:
  "set (queue_pop queue) \<subseteq> set queue"
  "set queue \<subseteq> insert (queue_top queue) (set (queue_pop queue))"
proof -
  show "set (queue_pop queue) \<subseteq> set queue"
    by (simp add: queue_pop_def set_remove1_subset)
  show "set queue \<subseteq> insert (queue_top queue) (set (queue_pop queue))"
  proof
    fix x
    assume "x \<in> set queue"
    then show "x \<in> insert (queue_top queue) (set (queue_pop queue))"
      by (cases "x = queue_top queue") (simp_all add: queue_pop_def in_set_remove1)
  qed
qed

subsection \<open>The nodes of the map returned\<close>

lemma covering_step:
  assumes "covering E r s" and "snd s \<noteq> []"
  shows "covering E r (computeParentMap_step len E s)"
proof -
  let ?cur = "queue_top (snd s)"
  have cur: "?cur \<in> set (snd s)" using assms(2) by (rule queue_top_member)
  with assms(1) have reach_cur: "reaches E r (node ?cur)"
    by (auto simp: covering_def)
  note pop = queue_pop_sets [of "snd s"]
  show ?thesis
  proof (cases rule: computeParentMap_step_cases [of len E s])
    case (expand visited1)
    let ?children = "map (\<lambda>e. \<lparr>node = eto e, parent = Some e,
                                 cost = cost ?cur + len (epath e)\<rparr>) (E (node ?cur))"
    have nodes: "node ` set ?children = eto ` set (E (node ?cur))"
      by (auto simp: image_iff)
    have old: "dom (fst s) \<union> node ` set (snd s)
                 \<subseteq> dom visited1 \<union> node ` set (queue_pop (snd s) @ ?children)"
      using pop expand(2) by auto
    have "\<forall>n \<in> dom visited1 \<union> node ` set (queue_pop (snd s) @ ?children). reaches E r n"
      using assms(1) pop(1) expand(2) reach_cur nodes
      by (auto simp: covering_def intro: reaches_step)
    moreover have "r \<in> dom visited1 \<union> node ` set (queue_pop (snd s) @ ?children)"
      using assms(1) old by (auto simp: covering_def)
    moreover have "\<forall>n \<in> dom visited1. \<forall>e \<in> set (E n).
        eto e \<in> dom visited1 \<union> node ` set (queue_pop (snd s) @ ?children)"
    proof (intro ballI)
      fix n e
      assume n: "n \<in> dom visited1" and e: "e \<in> set (E n)"
      show "eto e \<in> dom visited1 \<union> node ` set (queue_pop (snd s) @ ?children)"
      proof (cases "n = node ?cur")
        case True
        with e nodes show ?thesis by auto
      next
        case False
        with n expand(2) have "n \<in> dom (fst s)" by auto
        with assms(1) e have "eto e \<in> dom (fst s) \<union> node ` set (snd s)"
          by (auto simp: covering_def)
        with old show ?thesis by blast
      qed
    qed
    ultimately show ?thesis
      unfolding expand(1) covering_def by simp
  next
    case (keep w)
    have old: "dom (fst s) \<union> node ` set (snd s) \<subseteq> dom (fst s) \<union> node ` set (queue_pop (snd s))"
      using pop(2) keep(1) by auto
    have "\<forall>n \<in> dom (fst s) \<union> node ` set (queue_pop (snd s)). reaches E r n"
      using assms(1) pop(1) by (auto simp: covering_def)
    moreover have "r \<in> dom (fst s) \<union> node ` set (queue_pop (snd s))"
      using assms(1) old by (auto simp: covering_def)
    moreover have "\<forall>n \<in> dom (fst s). \<forall>e \<in> set (E n).
        eto e \<in> dom (fst s) \<union> node ` set (queue_pop (snd s))"
    proof (intro ballI)
      fix n e
      assume "n \<in> dom (fst s)" and "e \<in> set (E n)"
      with assms(1) have "eto e \<in> dom (fst s) \<union> node ` set (snd s)"
        by (simp add: covering_def)
      with old show "eto e \<in> dom (fst s) \<union> node ` set (queue_pop (snd s))" by blast
    qed
    ultimately show ?thesis
      unfolding keep(3) covering_def by simp
  qed
qed

lemma computeParentMap_dom:
  assumes "computeParentMap len E r = Some m"
  shows "dom m = {n. reaches E r n}"
proof -
  from assms obtain visited where
    loop: "computeParentMap_loop len E (computeParentMap_init r) = Some visited" and
    m: "m = map_option parent \<circ> visited"
    by (auto simp: computeParentMap_def split: option.splits)
  have "covering E r (computeParentMap_init r)"
    by (simp add: covering_def computeParentMap_init_def queue_push_def reaches_refl)
  with loop have c: "covering E r (visited, [])"
    by (rule computeParentMap_loop_invariant) (rule covering_step)
  have "reaches E r n \<Longrightarrow> n \<in> dom visited" for n
  proof (induction rule: reaches.induct)
    case reaches_refl
    from c show ?case by (simp add: covering_def)
  next
    case (reaches_step b e)
    with c show ?case by (simp add: covering_def)
  qed
  moreover have "n \<in> dom visited \<Longrightarrow> reaches E r n" for n
    using c by (simp add: covering_def)
  moreover have "dom m = dom visited"
    unfolding m by (auto simp: dom_def)
  ultimately show ?thesis by blast
qed

subsection \<open>The entry of the root in the map returned\<close>

lemma computeParentMap_root:
  assumes "computeParentMap len E r = Some m" and nonneg: "\<forall>p. 0 \<le> len p"
  shows "m r = Some None"
proof -
  from assms obtain visited where
    loop: "computeParentMap_loop len E (computeParentMap_init r) = Some visited" and
    m: "m = map_option parent \<circ> visited"
    by (auto simp: computeParentMap_def split: option.splits)
  let ?P = "\<lambda>s :: 'a Visited_t \<times> 'a Queue_t.
      s = computeParentMap_init r \<or>
      ((\<exists>w. fst s r = Some w \<and> parent w = None \<and> cost w = 0) \<and>
       (\<forall>w \<in> set (snd s). 0 \<le> cost w))"
  have "?P (visited, [])"
    using loop
  proof (rule computeParentMap_loop_invariant)
    show "?P (computeParentMap_init r)" by simp
  next
    fix s :: "'a Visited_t \<times> 'a Queue_t"
    assume P: "?P s" and ne: "snd s \<noteq> []"
    let ?cur = "queue_top (snd s)"
    let ?child = "\<lambda>e. \<lparr>node = eto e, parent = Some e, cost = cost ?cur + len (epath e)\<rparr>"
    from P consider (init) "s = computeParentMap_init r"
      | (run) w0 where "fst s r = Some w0" "parent w0 = None" "cost w0 = 0"
          "\<forall>w \<in> set (snd s). 0 \<le> cost w"
      by blast
    then show "?P (computeParentMap_step len E s)"
    proof cases
      case init
      have "computeParentMap_step len E s =
          ([r \<mapsto> \<lparr>node = r, parent = None, cost = 0\<rparr>],
           map (\<lambda>e. \<lparr>node = eto e, parent = Some e, cost = 0 + len (epath e)\<rparr>) (E r))"
        by (simp add: init computeParentMap_init_def computeParentMap_step_def Let_def
            foldl_queue_push [unfolded queue_push_def] queue_push_def queue_top_def
            queue_pop_def)
      then show ?thesis using nonneg by auto
    next
      case run
      have cur: "?cur \<in> set (snd s)" using ne by (rule queue_top_member)
      with run(4) have cur_cost: "0 \<le> cost ?cur" by blast
      show ?thesis
      proof (cases rule: computeParentMap_step_cases [of len E s])
        case (expand visited1)
        from expand(5) run(1,3) cur_cost have "node ?cur \<noteq> r" by auto
        with expand(3) run(1) have "visited1 r = Some w0" by simp
        moreover have "\<forall>w \<in> set (queue_pop (snd s) @ map ?child (E (node ?cur))). 0 \<le> cost w"
        proof
          fix w
          assume "w \<in> set (queue_pop (snd s) @ map ?child (E (node ?cur)))"
          then consider "w \<in> set (queue_pop (snd s))" | e where "w = ?child e"
            by auto
          then show "0 \<le> cost w"
          proof cases
            case 1
            then have "w \<in> set (snd s)" using queue_pop_sets(1) by blast
            with run(4) show ?thesis by blast
          next
            case 2
            with cur_cost nonneg [rule_format, of "epath e"] show ?thesis by simp
          qed
        qed
        ultimately show ?thesis unfolding expand(1) using run(2,3) by simp
      next
        case (keep w)
        show ?thesis
          unfolding keep(3) using run queue_pop_sets(1) [of "snd s"] by auto
      qed
    qed
  qed
  then show ?thesis
    by (auto simp: m computeParentMap_init_def queue_push_def)
qed

subsection \<open>The costs of the map returned\<close>

lemma settledI:
  assumes "\<exists>w. fst s r = Some w \<and> parent w = None \<and> cost w = 0"
    and "\<And>n v. fst s n = Some v \<Longrightarrow> n \<noteq> r \<Longrightarrow>
         \<exists>e u. parent v = Some e \<and> eto e = n \<and> e \<in> set (E (efrom e)) \<and>
                fst s (efrom e) = Some u \<and> cost u + len (epath e) \<le> cost v"
    and "\<And>w. w \<in> set (snd s) \<Longrightarrow> 0 \<le> cost w \<and>
         (\<exists>e u. parent w = Some e \<and> eto e = node w \<and> e \<in> set (E (efrom e)) \<and>
                fst s (efrom e) = Some u \<and> cost u + len (epath e) \<le> cost w)"
    and "\<And>n v e. fst s n = Some v \<Longrightarrow> e \<in> set (E n) \<Longrightarrow>
            (\<exists>u. fst s (eto e) = Some u \<and> cost u \<le> cost v + len (epath e)) \<or>
            (\<exists>w \<in> set (snd s). node w = eto e \<and> cost w \<le> cost v + len (epath e))"
    and "\<And>n. n \<in> dom (fst s) \<Longrightarrow> \<exists>c. chain_cost len (map_option parent \<circ> fst s) n c"
  shows "settled len E r s"
  unfolding settled_def using assms by blast

lemma settledD:
  assumes "settled len E r s"
  shows "\<exists>w. fst s r = Some w \<and> parent w = None \<and> cost w = 0"
    and "\<And>n v. fst s n = Some v \<Longrightarrow> n \<noteq> r \<Longrightarrow>
         \<exists>e u. parent v = Some e \<and> eto e = n \<and> e \<in> set (E (efrom e)) \<and>
                fst s (efrom e) = Some u \<and> cost u + len (epath e) \<le> cost v"
    and "\<And>w. w \<in> set (snd s) \<Longrightarrow> 0 \<le> cost w \<and>
         (\<exists>e u. parent w = Some e \<and> eto e = node w \<and> e \<in> set (E (efrom e)) \<and>
                fst s (efrom e) = Some u \<and> cost u + len (epath e) \<le> cost w)"
    and "\<And>n v e. fst s n = Some v \<Longrightarrow> e \<in> set (E n) \<Longrightarrow>
            (\<exists>u. fst s (eto e) = Some u \<and> cost u \<le> cost v + len (epath e)) \<or>
            (\<exists>w \<in> set (snd s). node w = eto e \<and> cost w \<le> cost v + len (epath e))"
    and "\<And>n. n \<in> dom (fst s) \<Longrightarrow> \<exists>c. chain_cost len (map_option parent \<circ> fst s) n c"
  using assms unfolding settled_def by blast+

text \<open>A chain whose nodes have recorded costs below a bound is the same in a map that
  differs only at nodes of recorded cost at or above the bound.\<close>

lemma chain_cost_below_bound:
  fixes rc :: "node \<Rightarrow> real"
  assumes mono: "\<And>n e. m n = Some (Some e) \<Longrightarrow> rc (efrom e) \<le> rc n"
    and same: "\<And>z. rc z < K \<Longrightarrow> m' z = m z"
  shows "chain_cost len m y cy \<Longrightarrow> rc y < K \<Longrightarrow> chain_cost len m' y cy"
proof (induction rule: chain_cost.induct)
  case (chain_root y)
  with same have "m' y = Some None" by simp
  then show ?case by (rule chain_cost.chain_root)
next
  case (chain_step y e c0)
  from chain_step.hyps(1) chain_step.prems same have "m' y = Some (Some e)" by simp
  moreover have "rc (efrom e) < K"
    using mono [OF chain_step.hyps(1)] chain_step.prems by simp
  then have "chain_cost len m' (efrom e) c0" by (rule chain_step.IH)
  ultimately show ?case by (rule chain_cost.chain_step)
qed

lemma chain_cost_redirect:
  assumes other: "\<And>z. z \<noteq> x \<Longrightarrow> m' z = m z"
    and x: "m' x = Some (Some e)" and u: "chain_cost len m' (efrom e) cu"
  shows "chain_cost len m y cy \<Longrightarrow> \<exists>cy'. chain_cost len m' y cy'"
proof (induction rule: chain_cost.induct)
  case (chain_root y)
  show ?case
  proof (cases "y = x")
    case True
    with x u show ?thesis by (blast intro: chain_cost.chain_step)
  next
    case False
    with other chain_root.hyps have "m' y = Some None" by simp
    then show ?thesis by (blast intro: chain_cost.chain_root)
  qed
next
  case (chain_step y e0 c0)
  show ?case
  proof (cases "y = x")
    case True
    with x u show ?thesis by (blast intro: chain_cost.chain_step)
  next
    case False
    with other chain_step.hyps(1) have "m' y = Some (Some e0)" by simp
    with chain_step.IH show ?thesis by (blast intro: chain_cost.chain_step)
  qed
qed


lemma settled_keep:
  assumes inv: "settled len E r s" and ne: "snd s \<noteq> []"
    and w: "fst s (node (queue_top (snd s))) = Some w"
    and le: "\<not> cost (queue_top (snd s)) < cost w"
  shows "settled len E r (fst s, queue_pop (snd s))"
proof (rule settledI, simp_all only: fst_conv snd_conv)
  note D = settledD [OF inv]
  note pop = queue_pop_sets [of "snd s"]
  show "\<exists>w. fst s r = Some w \<and> parent w = None \<and> cost w = 0" by (rule D(1))
  show "\<exists>e u. parent v = Some e \<and> eto e = n \<and> e \<in> set (E (efrom e)) \<and>
                fst s (efrom e) = Some u \<and> cost u + len (epath e) \<le> cost v"
    if "fst s n = Some v" "n \<noteq> r" for n v
    using that by (rule D(2))
  show "0 \<le> cost w' \<and>
         (\<exists>e u. parent w' = Some e \<and> eto e = node w' \<and> e \<in> set (E (efrom e)) \<and>
                fst s (efrom e) = Some u \<and> cost u + len (epath e) \<le> cost w')"
    if "w' \<in> set (queue_pop (snd s))" for w'
  proof -
    from that pop(1) have "w' \<in> set (snd s)" by blast
    then show ?thesis by (rule D(3))
  qed
  show "(\<exists>u. fst s (eto e) = Some u \<and> cost u \<le> cost v + len (epath e)) \<or>
        (\<exists>w' \<in> set (queue_pop (snd s)). node w' = eto e \<and> cost w' \<le> cost v + len (epath e))"
    if n: "fst s n = Some v" and e: "e \<in> set (E n)" for n v e
  proof -
    from D(4) [OF n e] consider
      (visited) u where "fst s (eto e) = Some u" "cost u \<le> cost v + len (epath e)"
      | (queued) w' where "w' \<in> set (snd s)" "node w' = eto e"
          "cost w' \<le> cost v + len (epath e)"
      by blast
    then show ?thesis
    proof cases
      case visited
      then show ?thesis by blast
    next
      case queued
      show ?thesis
      proof (cases "w' = queue_top (snd s)")
        case True
        with queued w le have "fst s (eto e) = Some w \<and> cost w \<le> cost v + len (epath e)"
          by auto
        then show ?thesis by blast
      next
        case False
        with queued(1) pop(2) have "w' \<in> set (queue_pop (snd s))" by blast
        with queued(2,3) show ?thesis by blast
      qed
    qed
  qed
  show "\<exists>c. chain_cost len (map_option parent \<circ> fst s) n c" if "n \<in> dom (fst s)" for n
    using that by (rule D(5))
qed


lemma settled_expand:
  fixes len :: "'p \<Rightarrow> real" and E :: "node \<Rightarrow> 'p edge list"
    and s :: "'p Visited_t \<times> 'p Queue_t"
  defines "current \<equiv> queue_top (snd s)"
  defines "children \<equiv>
     map (\<lambda>e. \<lparr>node = eto e, parent = Some e, cost = cost current + len (epath e)\<rparr>)
       (E (node current))"
  assumes nonneg: "\<forall>p. 0 \<le> len p"
    and from_ok: "\<forall>n. \<forall>e \<in> set (E n). efrom e = n"
    and inv: "settled len E r s" and ne: "snd s \<noteq> []"
    and dom1: "dom visited1 = insert (node current) (dom (fst s))"
    and other: "\<And>u. u \<noteq> node current \<Longrightarrow> visited1 u = fst s u"
    and new: "\<exists>w. visited1 (node current) = Some w \<and> cost w = cost current \<and>
           parent w = parent current"
    and why: "fst s (node current) = None \<or>
       (\<exists>w. fst s (node current) = Some w \<and> cost current < cost w)"
  shows "settled len E r (visited1, queue_pop (snd s) @ children)"
proof (rule settledI, simp_all only: fst_conv snd_conv)
  note D = settledD [OF inv]
  note pop = queue_pop_sets [of "snd s"]
  let ?x = "node current"
  let ?m = "map_option parent \<circ> fst s"
  let ?m' = "map_option parent \<circ> visited1"
  have cur: "current \<in> set (snd s)"
    unfolding current_def using ne by (rule queue_top_member)
  from D(3) [OF cur] obtain e0 u0 where
    cur_cost: "0 \<le> cost current" and
    e0: "parent current = Some e0" "eto e0 = ?x" "e0 \<in> set (E (efrom e0))"
      "fst s (efrom e0) = Some u0" "cost u0 + len (epath e0) \<le> cost current"
    by blast
  from D(1) obtain w0 where w0: "fst s r = Some w0" "parent w0 = None" "cost w0 = 0"
    by blast
  from new obtain wx where
    wx: "visited1 ?x = Some wx" "cost wx = cost current" "parent wx = parent current"
    by blast
  have len_e0: "0 \<le> len (epath e0)" using nonneg by simp
  have x_ne_r: "?x \<noteq> r"
    using why w0 cur_cost by auto
  have from_ne: "efrom e0 \<noteq> ?x"
    using why e0(4,5) len_e0 by auto
  have shrink: "\<exists>v'. visited1 n = Some v' \<and> cost v' \<le> cost v" if "fst s n = Some v" for n v
  proof (cases "n = ?x")
    case True
    with that why have "cost current < cost v" by auto
    with wx True show ?thesis by simp
  next
    case False
    with that other show ?thesis by simp
  qed
  have children: "w' \<in> set children \<longleftrightarrow>
      (\<exists>e \<in> set (E ?x). w' = \<lparr>node = eto e, parent = Some e, cost = cost current + len (epath e)\<rparr>)"
    for w'
    unfolding children_def by auto

  show "\<exists>w. visited1 r = Some w \<and> parent w = None \<and> cost w = 0"
    using w0 other [of r] x_ne_r by simp

  show "\<exists>e u. parent v = Some e \<and> eto e = n \<and> e \<in> set (E (efrom e)) \<and>
                visited1 (efrom e) = Some u \<and> cost u + len (epath e) \<le> cost v"
    if n: "visited1 n = Some v" "n \<noteq> r" for n v
  proof (cases "n = ?x")
    case True
    with n wx have v: "v = wx" by simp
    have "visited1 (efrom e0) = Some u0"
      using other [OF from_ne] e0(4) by simp
    with e0 wx v True show ?thesis by simp
  next
    case False
    with n other have "fst s n = Some v" by simp
    from D(2) [OF this n(2)] obtain e u where
      e: "parent v = Some e" "eto e = n" "e \<in> set (E (efrom e))"
        "fst s (efrom e) = Some u" "cost u + len (epath e) \<le> cost v"
      by blast
    from shrink [OF e(4)] obtain u' where "visited1 (efrom e) = Some u'" "cost u' \<le> cost u"
      by blast
    with e show ?thesis by auto
  qed

  show "0 \<le> cost w' \<and>
         (\<exists>e u. parent w' = Some e \<and> eto e = node w' \<and> e \<in> set (E (efrom e)) \<and>
                visited1 (efrom e) = Some u \<and> cost u + len (epath e) \<le> cost w')"
    if "w' \<in> set (queue_pop (snd s) @ children)" for w'
  proof -
    from that children [of w'] consider
      (old) "w' \<in> set (queue_pop (snd s))"
      | (child) e where "e \<in> set (E ?x)"
          "w' = \<lparr>node = eto e, parent = Some e, cost = cost current + len (epath e)\<rparr>"
      by auto
    then show ?thesis
    proof cases
      case old
      with pop(1) have "w' \<in> set (snd s)" by blast
      from D(3) [OF this] obtain e u where
        e: "0 \<le> cost w'" "parent w' = Some e" "eto e = node w'" "e \<in> set (E (efrom e))"
          "fst s (efrom e) = Some u" "cost u + len (epath e) \<le> cost w'"
        by blast
      from shrink [OF e(5)] obtain u' where "visited1 (efrom e) = Some u'" "cost u' \<le> cost u"
        by blast
      with e show ?thesis by auto
    next
      case child
      from child(1) from_ok have "efrom e = ?x" by blast
      moreover have "0 \<le> len (epath e)" using nonneg by simp
      ultimately show ?thesis using child wx cur_cost by simp
    qed
  qed

  show "(\<exists>u. visited1 (eto e) = Some u \<and> cost u \<le> cost v + len (epath e)) \<or>
        (\<exists>w' \<in> set (queue_pop (snd s) @ children).
           node w' = eto e \<and> cost w' \<le> cost v + len (epath e))"
    if n: "visited1 n = Some v" and e: "e \<in> set (E n)" for n v e
  proof (cases "n = ?x")
    case True
    with n wx have v: "v = wx" by simp
    let ?w' = "\<lparr>node = eto e, parent = Some e, cost = cost current + len (epath e)\<rparr>"
    have "?w' \<in> set (queue_pop (snd s) @ children)"
      using e True children [of ?w'] by auto
    moreover have "node ?w' = eto e \<and> cost ?w' \<le> cost v + len (epath e)"
      using v wx(2) by simp
    ultimately show ?thesis by blast
  next
    case False
    with n other have old_n: "fst s n = Some v" by simp
    from D(4) [OF old_n e] consider
      (visited) u where "fst s (eto e) = Some u" "cost u \<le> cost v + len (epath e)"
      | (queued) w' where "w' \<in> set (snd s)" "node w' = eto e"
          "cost w' \<le> cost v + len (epath e)"
      by blast
    then show ?thesis
    proof cases
      case visited
      from shrink [OF visited(1)] obtain u' where
        "visited1 (eto e) = Some u'" "cost u' \<le> cost u"
        by blast
      with visited(2) have "visited1 (eto e) = Some u' \<and> cost u' \<le> cost v + len (epath e)"
        by simp
      then show ?thesis by blast
    next
      case queued
      show ?thesis
      proof (cases "w' = current")
        case True
        with queued wx have "visited1 (eto e) = Some wx \<and> cost wx \<le> cost v + len (epath e)"
          by simp
        then show ?thesis by blast
      next
        case False
        with queued(1) pop(2) have "w' \<in> set (queue_pop (snd s) @ children)"
          unfolding current_def by auto
        with queued(2,3) show ?thesis by blast
      qed
    qed
  qed

  have m'_other: "?m' z = ?m z" if "z \<noteq> ?x" for z
    using other [OF that] by simp
  have m'_x: "?m' ?x = Some (Some e0)"
    using wx e0(1) by simp
  from D(5) [of "efrom e0"] e0(4) obtain cu where cu: "chain_cost len ?m (efrom e0) cu"
    by blast
  have cu': "chain_cost len ?m' (efrom e0) cu"
    using why
  proof
    assume none: "fst s ?x = None"
    show ?thesis
      using cu
    proof (rule chain_cost_cong)
      fix y cy
      assume "chain_cost len ?m y cy"
      then have "?m y \<noteq> None" by (rule chain_cost_mapped)
      with none have "y \<noteq> ?x" by auto
      then show "?m' y = ?m y" by (rule m'_other)
    qed
  next
    assume "\<exists>w. fst s ?x = Some w \<and> cost current < cost w"
    then obtain w where w: "fst s ?x = Some w" "cost current < cost w" by blast
    let ?rc = "\<lambda>n. cost (the (fst s n))"
    show ?thesis
    proof (rule chain_cost_below_bound [where rc = ?rc and K = "cost w" and m = ?m])
      fix n e
      assume "?m n = Some (Some e)"
      then obtain v where v: "fst s n = Some v" "parent v = Some e" by auto
      with w0 have "n \<noteq> r" by auto
      from D(2) [OF v(1) this] v(2) obtain u where
        "fst s (efrom e) = Some u" "cost u + len (epath e) \<le> cost v"
        by auto
      moreover have "0 \<le> len (epath e)" using nonneg by simp
      ultimately show "?rc (efrom e) \<le> ?rc n" using v(1) by simp
    next
      fix z
      assume "?rc z < cost w"
      with w(1) have "z \<noteq> ?x" by auto
      then show "?m' z = ?m z" by (rule m'_other)
    next
      show "chain_cost len ?m (efrom e0) cu" by (rule cu)
    next
      show "?rc (efrom e0) < cost w"
        using e0(4,5) len_e0 w(2) by simp
    qed
  qed
  show "\<exists>c. chain_cost len ?m' n c" if "n \<in> dom visited1" for n
  proof (cases "n = ?x")
    case True
    have "chain_cost len ?m' ?x (len (epath e0) + cu)"
      using m'_x cu' by (rule chain_cost.chain_step)
    with True show ?thesis by blast
  next
    case False
    with that dom1 have "n \<in> dom (fst s)" by auto
    from D(5) [OF this] obtain c where "chain_cost len ?m n c" by blast
    with chain_cost_redirect [of ?x ?m' ?m e0 len cu n c] m'_other m'_x cu'
    show ?thesis by blast
  qed
qed


lemma settled_step:
  assumes nonneg: "\<forall>p. 0 \<le> len p"
    and from_ok: "\<forall>n. \<forall>e \<in> set (E n). efrom e = n"
    and inv: "settled len E r s" and ne: "snd s \<noteq> []"
  shows "settled len E r (computeParentMap_step len E s)"
proof (cases rule: computeParentMap_step_cases [of len E s])
  case (expand visited1)
  show ?thesis
    unfolding expand(1)
    using nonneg from_ok inv ne expand(2,3,4,5) by (rule settled_expand)
next
  case (keep w)
  show ?thesis
    unfolding keep(3)
    using inv ne keep(1,2) by (rule settled_keep)
qed

lemma settled_first:
  assumes nonneg: "\<forall>p. 0 \<le> len p"
    and from_ok: "\<forall>n. \<forall>e \<in> set (E n). efrom e = n"
  shows "settled len E r (computeParentMap_step len E (computeParentMap_init r))"
proof -
  let ?root = "\<lparr>node = r, parent = None, cost = 0\<rparr> :: 'a WeighedNode_t"
  let ?children =
    "map (\<lambda>e. \<lparr>node = eto e, parent = Some e, cost = 0 + len (epath e)\<rparr>) (E r)"
  have step: "computeParentMap_step len E (computeParentMap_init r) = ([r \<mapsto> ?root], ?children)"
    by (simp add: computeParentMap_init_def computeParentMap_step_def Let_def
        foldl_queue_push [unfolded queue_push_def] queue_push_def queue_top_def
        queue_pop_def)
  show ?thesis
    unfolding step
  proof (rule settledI, simp_all only: fst_conv snd_conv)
    show "\<exists>w. [r \<mapsto> ?root] r = Some w \<and> parent w = None \<and> cost w = 0"
      by simp
    show "\<exists>e u. parent v = Some e \<and> eto e = n \<and> e \<in> set (E (efrom e)) \<and>
                [r \<mapsto> ?root] (efrom e) = Some u \<and> cost u + len (epath e) \<le> cost v"
      if "[r \<mapsto> ?root] n = Some v" "n \<noteq> r" for n v
      using that by simp
    show "0 \<le> cost w \<and>
         (\<exists>e u. parent w = Some e \<and> eto e = node w \<and> e \<in> set (E (efrom e)) \<and>
                [r \<mapsto> ?root] (efrom e) = Some u \<and> cost u + len (epath e) \<le> cost w)"
      if "w \<in> set ?children" for w
    proof -
      from that obtain e where e: "e \<in> set (E r)"
        "w = \<lparr>node = eto e, parent = Some e, cost = 0 + len (epath e)\<rparr>"
        by auto
      from e(1) from_ok have "efrom e = r" by blast
      moreover have "0 \<le> len (epath e)" using nonneg by simp
      ultimately show ?thesis using e by simp
    qed
    show "(\<exists>u. [r \<mapsto> ?root] (eto e) = Some u \<and> cost u \<le> cost v + len (epath e)) \<or>
          (\<exists>w \<in> set ?children. node w = eto e \<and> cost w \<le> cost v + len (epath e))"
      if n: "[r \<mapsto> ?root] n = Some v" and e: "e \<in> set (E n)" for n v e
    proof -
      from n have "n = r" "cost v = 0" by (auto split: if_splits)
      with e have "\<lparr>node = eto e, parent = Some e, cost = 0 + len (epath e)\<rparr> \<in> set ?children"
        by auto
      with \<open>cost v = 0\<close> show ?thesis by force
    qed
    show "\<exists>c. chain_cost len (map_option parent \<circ> [r \<mapsto> ?root]) n c"
      if "n \<in> dom [r \<mapsto> ?root]" for n
    proof -
      from that have "(map_option parent \<circ> [r \<mapsto> ?root]) n = Some None"
        by (auto split: if_splits)
      then show ?thesis by (blast intro: chain_cost.chain_root)
    qed
  qed
qed

text \<open>When the loop has ended, the costs recorded are the costs of the parent chains, which
  are walks from the root along out-edges, and no walk from the root is shorter.\<close>

lemma settled_end_tight:
  assumes inv: "settled len E r (visited, [])"
    and v: "visited n = Some v" and n: "n \<noteq> r"
  shows "\<exists>e u. parent v = Some e \<and> eto e = n \<and> e \<in> set (E (efrom e)) \<and>
           visited (efrom e) = Some u \<and> cost v = cost u + len (epath e)"
proof -
  note D = settledD [OF inv, simplified]
  from D(2) [OF v n] obtain e u where
    e: "parent v = Some e" "eto e = n" "e \<in> set (E (efrom e))"
      "visited (efrom e) = Some u" "cost u + len (epath e) \<le> cost v"
    by blast
  from D(4) [OF e(4) e(3)] e(2) v have "cost v \<le> cost u + len (epath e)"
    by simp
  with e show ?thesis by auto
qed

lemma settled_end_chain:
  assumes inv: "settled len E r (visited, [])"
  shows "chain_cost len m n c \<Longrightarrow> m = map_option parent \<circ> visited \<Longrightarrow>
     (\<exists>v. visited n = Some v \<and> cost v = c) \<and> walk_cost len E r n c"
proof (induction rule: chain_cost.induct)
  case (chain_root n)
  note D = settledD [OF inv, simplified]
  from chain_root obtain v where v: "visited n = Some v" "parent v = None" by auto
  have "n = r"
  proof (rule ccontr)
    assume "n \<noteq> r"
    from D(2) [OF v(1) this] v(2) show False by simp
  qed
  with D(1) v show ?case by (auto intro: walk_refl)
next
  case (chain_step n e c0)
  note D = settledD [OF inv, simplified]
  from chain_step.hyps(1) chain_step.prems obtain v where
    v: "visited n = Some v" "parent v = Some e"
    by auto
  with D(1) have "n \<noteq> r" by auto
  from settled_end_tight [OF inv v(1) this] v(2) obtain u where
    u: "eto e = n" "e \<in> set (E (efrom e))" "visited (efrom e) = Some u"
      "cost v = cost u + len (epath e)"
    by auto
  from chain_step.IH [OF chain_step.prems] u(3) have
    "cost u = c0" "walk_cost len E r (efrom e) c0"
    by auto
  with walk_step [of len E r "efrom e" c0 e] u v show ?case by (simp add: add.commute)
qed

lemma settled_end_least:
  assumes inv: "settled len E r (visited, [])"
  shows "walk_cost len E r n d \<Longrightarrow> \<exists>v. visited n = Some v \<and> cost v \<le> d"
proof (induction rule: walk_cost.induct)
  case walk_refl
  from settledD(1) [OF inv] show ?case by auto
next
  case (walk_step b d e)
  note D = settledD [OF inv, simplified]
  from walk_step.IH obtain vb where vb: "visited b = Some vb" "cost vb \<le> d" by blast
  from D(4) [OF vb(1) walk_step.hyps(2)] obtain u where
    "visited (eto e) = Some u" "cost u \<le> cost vb + len (epath e)"
    by blast
  with vb(2) show ?case by auto
qed

text \<open>The map returned: every node of the map has a parent chain to the root, which is a
  walk from the root along out-edges, and no walk from the root to the node is shorter.
  Every node but the root is mapped to an out-edge that ends at it.\<close>

lemma computeParentMap_shortest:
  assumes nonneg: "\<forall>p. 0 \<le> len p"
    and from_ok: "\<forall>n. \<forall>e \<in> set (E n). efrom e = n"
    and m: "computeParentMap len E r = Some m"
    and n: "m n \<noteq> None"
  shows "\<exists>c. computeCost len m n = Some (Inr c) \<and> walk_cost len E r n c \<and>
           (\<forall>d. walk_cost len E r n d \<longrightarrow> c \<le> d)"
    and "n \<noteq> r \<Longrightarrow> \<exists>e. m n = Some (Some e) \<and> eto e = n \<and> e \<in> set (E (efrom e))"
proof -
  from m obtain visited where
    loop: "computeParentMap_loop len E (computeParentMap_init r) = Some visited" and
    m_def: "m = map_option parent \<circ> visited"
    by (auto simp: computeParentMap_def split: option.splits)
  let ?P = "\<lambda>s. s = computeParentMap_init r \<or> settled len E r s"
  have "?P (visited, [])"
    using loop
  proof (rule computeParentMap_loop_invariant)
    show "?P (computeParentMap_init r)" by simp
  next
    fix s :: "'a Visited_t \<times> 'a Queue_t"
    assume "?P s" and "snd s \<noteq> []"
    then show "?P (computeParentMap_step len E s)"
      using settled_first [OF nonneg from_ok, of r] settled_step [OF nonneg from_ok, of r s]
      by blast
  qed
  then have inv: "settled len E r (visited, [])"
    by (auto simp: computeParentMap_init_def queue_push_def)
  from n obtain v where v: "visited n = Some v"
    by (auto simp: m_def)
  then have "n \<in> dom visited" by blast
  with settledD(5) [OF inv] obtain c where c: "chain_cost len m n c"
    by (auto simp: m_def)
  from settled_end_chain [OF inv c m_def] v have cv: "cost v = c" and walk: "walk_cost len E r n c"
    by auto
  have "c \<le> d" if "walk_cost len E r n d" for d
    using settled_end_least [OF inv that] v cv by auto
  with c walk show "\<exists>c. computeCost len m n = Some (Inr c) \<and> walk_cost len E r n c \<and>
           (\<forall>d. walk_cost len E r n d \<longrightarrow> c \<le> d)"
    by (auto simp: computeCost_iff_chain_cost)
  show "\<exists>e. m n = Some (Some e) \<and> eto e = n \<and> e \<in> set (E (efrom e))" if "n \<noteq> r"
    using settled_end_tight [OF inv v that] v by (auto simp: m_def)
qed

text \<open>Together, on a finite roadmap whose out-edges start at their node, with lengths that
  are not negative: \<^verbatim>\<open>computeParentMap\<close> returns; the keys of the map are the nodes reached
  from the root; the root has the null edge; the parent chain of every node reached is a
  walk from the root, and no walk from the root to the node is shorter.\<close>

lemma computeParentMap_correct:
  assumes V: "finite V" and closed: "\<forall>n \<in> V. \<forall>e \<in> set (E n). eto e \<in> V" and r: "r \<in> V"
    and nonneg: "\<forall>p. 0 \<le> len p"
    and from_ok: "\<forall>n. \<forall>e \<in> set (E n). efrom e = n"
  shows "\<exists>m. computeParentMap len E r = Some m \<and> dom m = {n. reaches E r n} \<and>
           m r = Some None \<and>
           (\<forall>n. reaches E r n \<longrightarrow>
              (\<exists>c. computeCost len m n = Some (Inr c) \<and> walk_cost len E r n c \<and>
                   (\<forall>d. walk_cost len E r n d \<longrightarrow> c \<le> d)))"
proof -
  from computeParentMap_ends [OF V closed nonneg r] obtain m where
    m: "computeParentMap len E r = Some m"
    by blast
  from m have dom_m: "dom m = {n. reaches E r n}" by (rule computeParentMap_dom)
  from m nonneg have root: "m r = Some None" by (rule computeParentMap_root)
  have "\<exists>c. computeCost len m n = Some (Inr c) \<and> walk_cost len E r n c \<and>
           (\<forall>d. walk_cost len E r n d \<longrightarrow> c \<le> d)"
    if "reaches E r n" for n
  proof -
    from that dom_m have "m n \<noteq> None" by blast
    with nonneg from_ok m show ?thesis by (rule computeParentMap_shortest(1))
  qed
  with m dom_m root show ?thesis by blast
qed

section \<open>The parent maps at the first step of the refinement phase\<close>

lemma reaches_closed:
  assumes "reaches E r n" and "r \<in> V" and "\<forall>n \<in> V. \<forall>e \<in> set (E n). eto e \<in> V"
  shows "n \<in> V"
  using assms by (induction rule: reaches.induct) auto

lemma computeParentMap_covers:
  assumes nonneg: "\<forall>p. 0 \<le> len p"
    and closed: "\<forall>n \<in> set ns. \<forall>e \<in> set (E n). eto e \<in> set ns"
    and r: "r \<in> set ns"
    and conn: "\<forall>n \<in> set ns. reaches E r n"
  shows "\<exists>m. computeParentMap len E r = Some m \<and> dom m = set ns"
proof -
  have "finite (set ns)" by simp
  from computeParentMap_ends [OF this closed nonneg r] obtain m where
    m: "computeParentMap len E r = Some m"
    by blast
  then have "dom m = {n. reaches E r n}" by (rule computeParentMap_dom)
  moreover have "{n. reaches E r n} = set ns"
    using conn reaches_closed [OF _ r closed] by blast
  ultimately show ?thesis using m by simp
qed

text \<open>
  C7. The roadmap is one connected component: its nodes, listed once, are all reached from
  each of the two roots along out-edges, and out-edges lead to nodes of the roadmap; path
  lengths are not negative. If \<open>roots[0]\<close> is not in \<open>toRoot[1]\<close>, then \<^verbatim>\<open>oneStep\<close> replaces
  both parent maps by the results of \<^verbatim>\<open>computeParentMap\<close>, which both return; the two maps
  have exactly the nodes of the roadmap as keys, the two assertions on their sizes hold, and
  \<^verbatim>\<open>oneStep\<close> goes on with \<^verbatim>\<open>improve\<close> on these maps.
\<close>

theorem parent_maps_filled_after_merge:
  assumes "\<forall>p. 0 \<le> path_length env p"
    and "snd (toRoot st) (fst (roots st)) = None"
    and "distinct (nodes env (roadmap st))"
    and "\<forall>n \<in> set (nodes env (roadmap st)). \<forall>e \<in> set (outEdges env (roadmap st) n).
           eto e \<in> set (nodes env (roadmap st))"
    and "fst (roots st) \<in> set (nodes env (roadmap st))"
    and "snd (roots st) \<in> set (nodes env (roadmap st))"
    and "\<forall>n \<in> set (nodes env (roadmap st)).
           reaches (outEdges env (roadmap st)) (fst (roots st)) n \<and>
           reaches (outEdges env (roadmap st)) (snd (roots st)) n"
  shows "\<exists>toRoot_0 toRoot_1.
           computeParentMap (path_length env) (outEdges env (roadmap st)) (fst (roots st))
             = Some toRoot_0 \<and>
           computeParentMap (path_length env) (outEdges env (roadmap st)) (snd (roots st))
             = Some toRoot_1 \<and>
           fill_parent_maps env st = Some (st\<lparr>toRoot := (toRoot_0, toRoot_1)\<rparr>) \<and>
           dom toRoot_0 = set (nodes env (roadmap st)) \<and>
           dom toRoot_1 = set (nodes env (roadmap st)) \<and>
           card (dom toRoot_0) = length (nodes env (roadmap st)) \<and>
           card (dom toRoot_1) = length (nodes env (roadmap st)) \<and>
           sizes_asserted env (st\<lparr>toRoot := (toRoot_0, toRoot_1)\<rparr>) \<and>
           (connectedComponents_size env (roadmap st) \<noteq> 2 \<longrightarrow>
              oneStep env st q =
                (case improve env (st\<lparr>toRoot := (toRoot_0, toRoot_1)\<rparr>) q of
                   None \<Rightarrow> None
                 | Some (Inl err) \<Rightarrow> Some (Inl err)
                 | Some (Inr (improved, st2)) \<Rightarrow> Some (Inr st2)))"
proof -
  let ?ns = "nodes env (roadmap st)"
  let ?E = "outEdges env (roadmap st)"
  have "\<forall>n \<in> set ?ns. reaches ?E (fst (roots st)) n" using assms(7) by blast
  with assms(1,4,5) obtain m0 where
    m0: "computeParentMap (path_length env) ?E (fst (roots st)) = Some m0" "dom m0 = set ?ns"
    using computeParentMap_covers [of "path_length env" ?ns ?E "fst (roots st)"] by blast
  have "\<forall>n \<in> set ?ns. reaches ?E (snd (roots st)) n" using assms(7) by blast
  with assms(1,4,6) obtain m1 where
    m1: "computeParentMap (path_length env) ?E (snd (roots st)) = Some m1" "dom m1 = set ?ns"
    using computeParentMap_covers [of "path_length env" ?ns ?E "snd (roots st)"] by blast
  have card: "card (set ?ns) = length ?ns"
    using assms(3) by (rule distinct_card)
  have fill: "fill_parent_maps env st = Some (st\<lparr>toRoot := (m0, m1)\<rparr>)"
    using assms(2) m0(1) m1(1) by (simp add: fill_parent_maps_def)
  have sizes: "sizes_asserted env (st\<lparr>toRoot := (m0, m1)\<rparr>)"
    using m0(2) m1(2) card by (simp add: sizes_asserted_def)
  have "connectedComponents_size env (roadmap st) \<noteq> 2 \<Longrightarrow>
      oneStep env st q =
        (case improve env (st\<lparr>toRoot := (m0, m1)\<rparr>) q of
           None \<Rightarrow> None
         | Some (Inl err) \<Rightarrow> Some (Inl err)
         | Some (Inr (improved, st2)) \<Rightarrow> Some (Inr st2))"
    using fill sizes by (simp add: oneStep_def)
  with m0 m1 card fill sizes show ?thesis by auto
qed

theorem parent_maps_filled_after_merge_witness:
  "fill_parent_maps line_env line_wide_merged = Some line_wide_filled \<and>
   dom (fst (toRoot line_wide_filled)) = set (nodes line_env (roadmap line_wide_merged)) \<and>
   dom (snd (toRoot line_wide_filled)) = set (nodes line_env (roadmap line_wide_merged)) \<and>
   sizes_asserted line_env line_wide_filled \<and>
   oneStep line_env line_wide_merged 3 = Some (Inr line_wide_improved)"
proof -
  let ?E = "outEdges line_env (roadmap line_wide_merged)"
  have e01: "\<lparr>efrom = 0, eto = 1, epath = (0, 4)\<rparr> \<in> set (?E 0)"
    and e10: "\<lparr>efrom = 1, eto = 0, epath = (4, 0)\<rparr> \<in> set (?E 1)"
    by (simp_all add: line_env_def line_wide_merged_def)
  have r01: "reaches ?E 0 1"
    using reaches_step [of ?E 0 0 "\<lparr>efrom = 0, eto = 1, epath = (0, 4)\<rparr>"] e01
    by (simp add: reaches_refl)
  have r10: "reaches ?E 1 0"
    using reaches_step [of ?E 1 1 "\<lparr>efrom = 1, eto = 0, epath = (4, 0)\<rparr>"] e10
    by (simp add: reaches_refl)
  have ns: "nodes line_env (roadmap line_wide_merged) = [0, 1]"
    by (simp add: line_env_def line_wide_merged_def)
  have roots: "roots line_wide_merged = (0, 1)"
    by (simp add: line_wide_merged_def)
  have h1: "\<forall>p. 0 \<le> path_length line_env p" by (rule line_lengths)
  have h2: "snd (toRoot line_wide_merged) (fst (roots line_wide_merged)) = None"
    by (simp add: line_wide_merged_def)
  have h3: "distinct (nodes line_env (roadmap line_wide_merged))"
    unfolding ns by simp
  have h4: "\<forall>n \<in> set (nodes line_env (roadmap line_wide_merged)). \<forall>e \<in> set (?E n).
      eto e \<in> set (nodes line_env (roadmap line_wide_merged))"
    unfolding ns by (auto simp: line_env_def line_wide_merged_def)
  have h5: "fst (roots line_wide_merged) \<in> set (nodes line_env (roadmap line_wide_merged))"
    and h6: "snd (roots line_wide_merged) \<in> set (nodes line_env (roadmap line_wide_merged))"
    unfolding ns roots by simp_all
  have h7: "\<forall>n \<in> set (nodes line_env (roadmap line_wide_merged)).
      reaches ?E (fst (roots line_wide_merged)) n \<and> reaches ?E (snd (roots line_wide_merged)) n"
    unfolding ns roots using r01 r10 by (auto intro: reaches_refl)
  have c: "connectedComponents_size line_env (roadmap line_wide_merged) \<noteq> 2"
    by (simp add: line_env_def line_wide_merged_def)
  from parent_maps_filled_after_merge [OF h1 h2 h3 h4 h5 h6 h7, of 3]
  obtain m0 m1 where
    fill: "fill_parent_maps line_env line_wide_merged = Some (line_wide_merged\<lparr>toRoot := (m0, m1)\<rparr>)"
    and doms: "dom m0 = set (nodes line_env (roadmap line_wide_merged))"
      "dom m1 = set (nodes line_env (roadmap line_wide_merged))"
    and sizes: "sizes_asserted line_env (line_wide_merged\<lparr>toRoot := (m0, m1)\<rparr>)"
    by blast
  from fill line_wide_fill have eq: "line_wide_merged\<lparr>toRoot := (m0, m1)\<rparr> = line_wide_filled"
    by simp
  then have "toRoot line_wide_filled = (m0, m1)"
    by (metis BiRrtStar.select_convs(4) BiRrtStar.surjective BiRrtStar.update_convs(4))
  with fill doms sizes eq line_wide_second_step show ?thesis by simp
qed



end
